theory Spec2Isabelle
  imports Complex_Main "HOL-Library.Log_Nat"
begin

section \<open>The Number type of the host language\<close>

text \<open>
  The panel (\<^verbatim>\<open>src/assets/js/panels/home.js\<close>) computes with ECMAScript Numbers:
  IEEE 754 binary64 values. A Number is modelled by its sign and the exact rational
  magnitude it denotes; an arithmetic operation computes the exact result and rounds it
  to the nearest binary64 value, ties to the even significand, overflowing to infinity.
  Both zeros exist (\<open>Finite Pos 0\<close> and \<open>Finite Neg 0\<close>). The magnitude of a
  \<open>Finite\<close> value is non-negative.
\<close>

datatype sign = Pos | Neg

datatype jsnum = NaN | Infinity sign | Finite sign rat

definition sign_mult :: "sign \<Rightarrow> sign \<Rightarrow> sign" where
  "sign_mult s t = (if s = t then Pos else Neg)"

definition signed :: "sign \<Rightarrow> rat \<Rightarrow> rat" where
  "signed s q = (case s of Pos \<Rightarrow> q | Neg \<Rightarrow> - q)"

text \<open>\<open>ilog2 q\<close> is the binary exponent of a positive rational: \<open>2 powi ilog2 q \<le> q < 2 powi (ilog2 q + 1)\<close>.\<close>

definition ilog2 :: "rat \<Rightarrow> int" where
  "ilog2 q = (if 1 \<le> q then bitlen \<lfloor>q\<rfloor> - 1 else - bitlen (\<lceil>1 / q\<rceil> - 1))"

definition round_half_even :: "rat \<Rightarrow> int" where
  "round_half_even z =
     (let f = \<lfloor>z\<rfloor>; d = z - of_int f
      in if d < 1 / 2 then f else if 1 / 2 < d then f + 1 else if even f then f else f + 1)"

text \<open>
  The spacing of the binary64 values around a positive magnitude: 53 significant bits,
  the exponent bounded below by the subnormal range.
\<close>

definition ulp :: "rat \<Rightarrow> rat" where
  "ulp q = 2 powi (max (ilog2 q) (- 1022) - 52)"

text \<open>
  Rounding a positive magnitude to the nearest multiple of the spacing, and rounding a
  magnitude to binary64; \<open>None\<close> is overflow.
\<close>

definition nearest :: "rat \<Rightarrow> rat" where
  "nearest q = of_int (round_half_even (q / ulp q)) * ulp q"

definition round_mag :: "rat \<Rightarrow> rat option" where
  "round_mag q =
     (if q = 0 then Some 0
      else if nearest q < 2 ^ 1024 then Some (nearest q) else None)"

definition to_double :: "sign \<Rightarrow> rat \<Rightarrow> jsnum" where
  "to_double s q = (case round_mag q of None \<Rightarrow> Infinity s | Some r \<Rightarrow> Finite s r)"

text \<open>The operators \<^verbatim>\<open>/\<close>, \<^verbatim>\<open>*\<close>, \<^verbatim>\<open>+\<close>, \<^verbatim>\<open>-\<close> and \<^verbatim>\<open>Math.floor\<close> on Numbers.\<close>

fun js_divide :: "jsnum \<Rightarrow> jsnum \<Rightarrow> jsnum" where
  "js_divide NaN _ = NaN"
| "js_divide _ NaN = NaN"
| "js_divide (Infinity s) (Infinity t) = NaN"
| "js_divide (Infinity s) (Finite t y) = Infinity (sign_mult s t)"
| "js_divide (Finite s x) (Infinity t) = Finite (sign_mult s t) 0"
| "js_divide (Finite s x) (Finite t y) =
     (if y = 0 then (if x = 0 then NaN else Infinity (sign_mult s t))
      else to_double (sign_mult s t) (x / y))"

fun js_times :: "jsnum \<Rightarrow> jsnum \<Rightarrow> jsnum" where
  "js_times NaN _ = NaN"
| "js_times _ NaN = NaN"
| "js_times (Infinity s) (Infinity t) = Infinity (sign_mult s t)"
| "js_times (Infinity s) (Finite t y) = (if y = 0 then NaN else Infinity (sign_mult s t))"
| "js_times (Finite s x) (Infinity t) = (if x = 0 then NaN else Infinity (sign_mult s t))"
| "js_times (Finite s x) (Finite t y) = to_double (sign_mult s t) (x * y)"

fun js_plus :: "jsnum \<Rightarrow> jsnum \<Rightarrow> jsnum" where
  "js_plus NaN _ = NaN"
| "js_plus _ NaN = NaN"
| "js_plus (Infinity s) (Infinity t) = (if s = t then Infinity s else NaN)"
| "js_plus (Infinity s) (Finite t y) = Infinity s"
| "js_plus (Finite s x) (Infinity t) = Infinity t"
| "js_plus (Finite s x) (Finite t y) =
     (let v = signed s x + signed t y
      in if v = 0 then Finite (if s = Neg \<and> t = Neg then Neg else Pos) 0
         else to_double (if v < 0 then Neg else Pos) \<bar>v\<bar>)"

fun js_negate :: "jsnum \<Rightarrow> jsnum" where
  "js_negate NaN = NaN"
| "js_negate (Infinity s) = Infinity (sign_mult s Neg)"
| "js_negate (Finite s x) = Finite (sign_mult s Neg) x"

definition js_minus :: "jsnum \<Rightarrow> jsnum \<Rightarrow> jsnum" where
  "js_minus x y = js_plus x (js_negate y)"

fun Math_floor :: "jsnum \<Rightarrow> jsnum" where
  "Math_floor NaN = NaN"
| "Math_floor (Infinity s) = Infinity s"
| "Math_floor (Finite Pos q) = Finite Pos (of_int \<lfloor>q\<rfloor>)"
| "Math_floor (Finite Neg q) = Finite Neg (of_int \<lceil>q\<rceil>)"

section \<open>Numbers as text\<close>

fun decimal :: "nat \<Rightarrow> string" where
  "decimal n =
     (if n < 10 then [''0123456789'' ! n] else decimal (n div 10) @ [''0123456789'' ! (n mod 10)])"

declare decimal.simps [simp del]

text \<open>
  What the panel takes from its surroundings without defining it: the translation
  function \<^verbatim>\<open>t\<close> of \<^verbatim>\<open>../utils.js\<close> (a table from keys to the texts of the
  current language; \<open>translate\<close> here), and the digits the host prints for a positive
  Number where they are not plainly its decimal numeral (the shortest decimal that reads
  back as the same Number, in fraction or exponent notation). Both are parameters of the
  model.
\<close>

record env =
  translate :: "string \<Rightarrow> string"
  shortest_digits :: "rat \<Rightarrow> string"

definition minus_sign :: "sign \<Rightarrow> rat \<Rightarrow> string" where
  "minus_sign s q = (if s = Neg \<and> q \<noteq> 0 then ''-'' else '''')"

text \<open>
  \<^verbatim>\<open>Number::toString\<close>, as a template literal \<^verbatim>\<open>${x}\<close> applies it: an integer
  below \<open>2 ^ 53\<close> is printed as its decimal numeral.
\<close>

fun number_to_string :: "env \<Rightarrow> jsnum \<Rightarrow> string" where
  "number_to_string e NaN = ''NaN''"
| "number_to_string e (Infinity Pos) = ''Infinity''"
| "number_to_string e (Infinity Neg) = ''-Infinity''"
| "number_to_string e (Finite s q) =
     (if q = 0 then ''0''
      else minus_sign s q @
        (if q = of_int \<lfloor>q\<rfloor> \<and> q < 2 ^ 53 then decimal (nat \<lfloor>q\<rfloor>) else shortest_digits e q))"

text \<open>
  \<^verbatim>\<open>Number.prototype.toFixed(f)\<close>: the integer \<open>n\<close> nearest to \<open>x * 10 ^ f\<close>, the larger
  one of two, printed with \<open>f\<close> digits after the point; a magnitude of \<open>10 ^ 21\<close> or more,
  an infinity and NaN are printed as \<^verbatim>\<open>Number::toString\<close> prints them.
\<close>

definition point_digits :: "nat \<Rightarrow> string \<Rightarrow> string" where
  "point_digits f m =
     (if f = 0 then m
      else let z = replicate (f + 1 - length m) (CHR ''0'') @ m
           in take (length z - f) z @ ''.'' @ drop (length z - f) z)"

fun toFixed :: "env \<Rightarrow> nat \<Rightarrow> jsnum \<Rightarrow> string" where
  "toFixed e f NaN = ''NaN''"
| "toFixed e f (Infinity Pos) = ''Infinity''"
| "toFixed e f (Infinity Neg) = ''-Infinity''"
| "toFixed e f (Finite s q) =
     minus_sign s q @
       (if 10 ^ 21 \<le> q then shortest_digits e q
        else point_digits f (decimal (nat \<lfloor>q * 10 ^ f + 1 / 2\<rfloor>)))"

section \<open>Settings, configuration and the launch request\<close>

text \<open>
  \<^verbatim>\<open>launcherSettings.launcher.close\<close>: the close-behaviour preference, a string, or
  \<open>None\<close> when the property is not set (\<^verbatim>\<open>undefined\<close>).
\<close>

record launcher_settings =
  launcher_close :: "string option"

datatype 'v error = ConfigurationError string | ENOTDIR | Rejection 'v

text \<open>
  Modelled from the spec: the class \<^verbatim>\<open>database\<close> of \<^verbatim>\<open>../utils.js\<close> is not part of the
  sources. The spec's persistence contract is a key-addressed get of small structured
  records (selected account id, per-account profile, ram bounds, java path, java args,
  screen resolution, launcher close-behaviour preference), and resolving a configuration
  fails with \<open>ConfigurationError\<close> when a required key is absent. A record that is absent
  is \<open>None\<close>; the type \<open>'v\<close> stands for the values the panel passes on without looking
  into them.
\<close>

record 'v database =
  db_accounts_selected :: "string option"
  db_accounts :: "string \<Rightarrow> 'v option"
  db_ram :: "(jsnum \<times> jsnum) option"
  db_java_path :: "'v option"
  db_java_args :: "'v option"
  db_screen :: "(string \<times> string) option"
  db_launcher :: "launcher_settings option"

definition db_get :: "string \<Rightarrow> 'a option \<Rightarrow> 'v error + 'a" where
  "db_get category r = (case r of None \<Rightarrow> Inl (ConfigurationError category) | Some x \<Rightarrow> Inr x)"

text \<open>\<^verbatim>\<open>this.config.ignored\<close> is an array, or an object whose values are taken.\<close>

datatype ignored_paths = Ignored_array "string list" | Ignored_object "(string \<times> string) list"

record 'v config =
  config_dataDirectory :: string
  config_game_version :: 'v
  config_loader_type :: 'v
  config_loader_build :: 'v
  config_loader_enable :: 'v
  config_verify :: 'v
  config_ignored :: ignored_paths
  config_java :: 'v

text \<open>\<^verbatim>\<open>package.json\<close>, and what the module reads of the process at load time.\<close>

record package =
  pkg_user :: "string option"
  pkg_settings :: string
  pkg_env :: string

record process =
  dataDirectory :: string
  darwin :: bool

record 'v launch_options =
  url :: string
  authenticator :: 'v
  timeout :: jsnum
  path :: string
  version :: 'v
  detached :: bool
  downloadFileMultiple :: jsnum
  loader_type :: 'v
  loader_build :: 'v
  loader_enable :: 'v
  verify :: 'v
  ignored :: "string list"
  java :: 'v
  memory_min :: string
  memory_max :: string

definition endsWith :: "string \<Rightarrow> string \<Rightarrow> bool" where
  "endsWith s suffix = (length suffix \<le> length s \<and> drop (length s - length suffix) s = suffix)"

definition settings_url :: "package \<Rightarrow> string" where
  "settings_url pkg =
     (case pkg_user pkg of
        None \<Rightarrow> pkg_settings pkg
      | Some u \<Rightarrow> if u = [] then pkg_settings pkg else pkg_settings pkg @ ''/'' @ u)"

definition getBaseUrl :: "package \<Rightarrow> string" where
  "getBaseUrl pkg =
     (let baseUrl = (if endsWith (settings_url pkg) ''/'' then settings_url pkg
                     else settings_url pkg @ ''/'')
      in if pkg_env pkg = ''azuriom'' then baseUrl @ ''api/centralcorp/files''
         else baseUrl @ ''data/'')"

definition install_directory :: "process \<Rightarrow> 'v config \<Rightarrow> string" where
  "install_directory pr cfg =
     (if darwin pr then config_dataDirectory cfg else ''.'' @ config_dataDirectory cfg)"

text \<open>
  \<^verbatim>\<open>getLaunchOptions\<close>: the seven reads in the order of the source, each failing on an
  absent record, then the request. The java path, the java arguments and the screen
  resolution are read and not used in the request.
\<close>

definition getLaunchOptions ::
  "env \<Rightarrow> package \<Rightarrow> process \<Rightarrow> 'v config \<Rightarrow> 'v database \<Rightarrow> 'v error + 'v launch_options" where
  "getLaunchOptions e pkg pr cfg db =
     (case db_get ''accounts-selected'' (db_accounts_selected db) of Inl err \<Rightarrow> Inl err | Inr uuid \<Rightarrow>
      case db_get ''accounts'' (db_accounts db uuid) of Inl err \<Rightarrow> Inl err | Inr account \<Rightarrow>
      case db_get ''ram'' (db_ram db) of Inl err \<Rightarrow> Inl err | Inr (ramMin, ramMax) \<Rightarrow>
      case db_get ''java-path'' (db_java_path db) of Inl err \<Rightarrow> Inl err | Inr javaPath \<Rightarrow>
      case db_get ''java-args'' (db_java_args db) of Inl err \<Rightarrow> Inl err | Inr javaArgs \<Rightarrow>
      case db_get ''screen'' (db_screen db) of Inl err \<Rightarrow> Inl err | Inr resolution \<Rightarrow>
      case db_get ''launcher'' (db_launcher db) of Inl err \<Rightarrow> Inl err | Inr launcherSettings \<Rightarrow>
        Inr \<lparr> url = getBaseUrl pkg,
              authenticator = account,
              timeout = Finite Pos 10000,
              path = dataDirectory pr @ ''/'' @ install_directory pr cfg,
              version = config_game_version cfg,
              detached = (if launcher_close launcherSettings = Some ''close-all'' then False else True),
              downloadFileMultiple = Finite Pos 30,
              loader_type = config_loader_type cfg,
              loader_build = config_loader_build cfg,
              loader_enable = config_loader_enable cfg,
              verify = config_verify cfg,
              ignored = (case config_ignored cfg of
                           Ignored_array xs \<Rightarrow> xs
                         | Ignored_object kvs \<Rightarrow> map snd kvs) @ [''launcher_config''],
              java = config_java cfg,
              memory_min = number_to_string e (js_times ramMin (Finite Pos 1024)) @ ''M'',
              memory_max = number_to_string e (js_times ramMax (Finite Pos 1024)) @ ''M'' \<rparr>)"

section \<open>The panel\<close>

text \<open>
  What the handlers read and write: the style and content of the play button
  (\<^verbatim>\<open>.play-btn\<close>), the info text (\<^verbatim>\<open>.text-download\<close>) and the progress bar
  (\<^verbatim>\<open>.progress-bar\<close>); the children of \<^verbatim>\<open>.mods-list\<close> (\<open>None\<close> when the document has
  no such element), each child a \<^verbatim>\<open>div.mod-item\<close> given by its text; the server status
  widgets; the messages sent with \<^verbatim>\<open>ipcRenderer.send\<close>; what went to the console; the
  calls of \<^verbatim>\<open>launch.Launch\<close>; and the listeners on the module's one \<^verbatim>\<open>launch\<close> object.
  \<^verbatim>\<open>setupLaunchListeners\<close> adds one set of nine listeners per call, which all capture the
  same \<^verbatim>\<open>launcherSettings\<close>: the sets are listed in the order of registration.
\<close>

datatype ipc_message =
  Main_window_progress jsnum jsnum
| Main_window_hide
| Main_window_show
| Main_window_progress_reset

datatype 'v console_entry = Log_text string | Log_object 'v | New_logger string string

record 'v panel =
  playBtn_display :: string
  info_display :: string
  info_innerHTML :: string
  progressBar_display :: string
  progressBar_value :: "jsnum option"
  progressBar_max :: "jsnum option"
  mods_list :: "string list option"
  statusText :: string
  indicator_offline :: bool
  playersCount :: string
  ipc_sent :: "ipc_message list"
  console :: "'v console_entry list"
  engine_runs :: "'v launch_options list"
  listeners :: "launcher_settings list"

subsection \<open>Progress, duration and the handlers of the engine's events\<close>

definition updateProgressBar :: "env \<Rightarrow> jsnum \<Rightarrow> jsnum \<Rightarrow> string \<Rightarrow> 'v panel \<Rightarrow> 'v panel" where
  "updateProgressBar e progress size' text p =
     p \<lparr> progressBar_display := ''block'',
         info_innerHTML :=
           text @ '' '' @ toFixed e 0 (js_times (js_divide progress size') (Finite Pos 100)) @ ''%'',
         ipc_sent := ipc_sent p @ [Main_window_progress progress size'],
         progressBar_value := Some progress,
         progressBar_max := Some size' \<rparr>"

definition formatTime :: "env \<Rightarrow> jsnum \<Rightarrow> string" where
  "formatTime e time =
     (let hours = Math_floor (js_divide time (Finite Pos 3600));
          minutes = Math_floor (js_divide (js_minus time (js_times hours (Finite Pos 3600)))
                                          (Finite Pos 60));
          seconds = Math_floor (js_minus (js_minus time (js_times hours (Finite Pos 3600)))
                                         (js_times minutes (Finite Pos 60)))
      in number_to_string e hours @ ''h '' @ number_to_string e minutes @ ''m ''
           @ number_to_string e seconds @ ''s'')"

definition handleLaunchData :: "env \<Rightarrow> 'v \<Rightarrow> launcher_settings \<Rightarrow> 'v panel \<Rightarrow> 'v panel" where
  "handleLaunchData e d launcherSettings p =
     p \<lparr> console := console p @ [New_logger ''Minecraft'' ''#36b030'', Log_object d],
         ipc_sent := ipc_sent p
           @ (if launcher_close launcherSettings = Some ''close-launcher'' then [Main_window_hide] else [])
           @ [Main_window_progress_reset],
         progressBar_display := ''none'',
         info_innerHTML := translate e ''starting'' \<rparr>"

definition handleLaunchClose :: "env \<Rightarrow> jsnum \<Rightarrow> launcher_settings \<Rightarrow> 'v panel \<Rightarrow> 'v panel" where
  "handleLaunchClose e code launcherSettings p =
     p \<lparr> ipc_sent := ipc_sent p
           @ (if launcher_close launcherSettings = Some ''close-launcher'' then [Main_window_show] else []),
         progressBar_display := ''none'',
         info_display := ''none'',
         playBtn_display := ''block'',
         info_innerHTML := translate e ''verification'',
         console := console p @ [New_logger ''Launcher'' ''#7289da'', Log_text ''Close''] \<rparr>"

datatype 'v engine_event =
  Extract 'v
| Progress jsnum jsnum
| Check jsnum jsnum
| Estimated jsnum
| Speed jsnum
| Patch 'v
| Data 'v
| Close jsnum
| Error 'v

text \<open>The nine listeners of one \<^verbatim>\<open>setupLaunchListeners\<close> call, by the event they listen to.\<close>

fun listener :: "env \<Rightarrow> launcher_settings \<Rightarrow> 'v engine_event \<Rightarrow> 'v panel \<Rightarrow> 'v panel" where
  "listener e ls (Extract x) p = p \<lparr> console := console p @ [Log_object x] \<rparr>"
| "listener e ls (Progress progress size') p =
     updateProgressBar e progress size' (translate e ''download'') p"
| "listener e ls (Check progress size') p =
     updateProgressBar e progress size' (translate e ''verification'') p"
| "listener e ls (Estimated time) p = p \<lparr> console := console p @ [Log_text (formatTime e time)] \<rparr>"
| "listener e ls (Speed speed) p =
     p \<lparr> console := console p
           @ [Log_text (toFixed e 2 (js_divide speed (Finite Pos 1067008)) @ '' Mb/s'')] \<rparr>"
| "listener e ls (Patch x) p = p \<lparr> info_innerHTML := translate e ''patch_in_progress'' \<rparr>"
| "listener e ls (Data d) p = handleLaunchData e d ls p"
| "listener e ls (Close code) p = handleLaunchClose e code ls p"
| "listener e ls (Error err) p = p \<lparr> console := console p @ [Log_object err] \<rparr>"

text \<open>
  The engine emitting an event: every listener registered for it runs, in the order of
  registration.
\<close>

definition emit :: "env \<Rightarrow> 'v engine_event \<Rightarrow> 'v panel \<Rightarrow> 'v panel" where
  "emit e ev p = fold (\<lambda>ls. listener e ls ev) (listeners p) p"

definition emit_all :: "env \<Rightarrow> 'v engine_event list \<Rightarrow> 'v panel \<Rightarrow> 'v panel" where
  "emit_all e evs p = fold (emit e) evs p"

subsection \<open>The mods list\<close>

text \<open>
  What the filesystem holds at the path of the mods directory: nothing, a directory with
  its listing in the order \<^verbatim>\<open>readdirSync\<close> returns it, or something that is not a
  directory (\<^verbatim>\<open>existsSync\<close> holds, \<^verbatim>\<open>readdirSync\<close> throws).
\<close>

datatype fs_node = Absent | Directory "string list" | Not_directory

definition no_mods_text :: string where
  "no_mods_text = ''Aucun mod trouv'' @ [CHR 0xE9]"

definition displayEmptyModsMessage :: "'v panel \<Rightarrow> 'v panel" where
  "displayEmptyModsMessage p = p \<lparr> mods_list := Some [no_mods_text] \<rparr>"

definition verifyModsBeforeLaunch :: "fs_node \<Rightarrow> 'v panel \<Rightarrow> 'v error + 'v panel" where
  "verifyModsBeforeLaunch modsDirectory p =
     (case mods_list p of
        None \<Rightarrow> Inr p
      | Some _ \<Rightarrow>
          (case modsDirectory of
             Absent \<Rightarrow> Inr (displayEmptyModsMessage p)
           | Not_directory \<Rightarrow> Inl ENOTDIR
           | Directory files \<Rightarrow>
               (let mods = filter (\<lambda>file. endsWith file ''.jar'') files
                in if length mods = 0 then Inr (displayEmptyModsMessage p)
                   else Inr (p \<lparr> mods_list := Some (fold (\<lambda>m children. children @ [m]) mods []) \<rparr>))))"

subsection \<open>The play button\<close>

text \<open>
  What one click reads of the world outside the panel. The handler of the click is
  asynchronous and runs in three parts, between which other handlers can run: up to
  the request (lines 138-139: the mods check and \<^verbatim>\<open>getLaunchOptions\<close>, both awaited), the
  start (lines 140-146: the button is hidden, the info text shown, the engine started), and
  what follows the last await (lines 148-149: the launcher settings are read again and the
  listeners registered). An exception ends the handler where it is thrown, with what was
  done before it kept. \<open>play_click\<close> is a click whose parts run one after the other
  with nothing in between.
\<close>

record 'v world =
  w_package :: package
  w_process :: process
  w_config :: "'v config"
  w_database :: "'v database"
  w_modsDirectory :: fs_node

definition setupLaunchListeners :: "launcher_settings \<Rightarrow> 'v panel \<Rightarrow> 'v panel" where
  "setupLaunchListeners launcherSettings p = p \<lparr> listeners := listeners p @ [launcherSettings] \<rparr>"

definition click_prepare ::
  "env \<Rightarrow> 'v world \<Rightarrow> 'v panel \<Rightarrow> ('v error \<times> 'v panel) + ('v launch_options \<times> 'v panel)" where
  "click_prepare e w p =
     (case verifyModsBeforeLaunch (w_modsDirectory w) p of
        Inl err \<Rightarrow> Inl (err, p)
      | Inr p1 \<Rightarrow>
          (case getLaunchOptions e (w_package w) (w_process w) (w_config w) (w_database w) of
             Inl err \<Rightarrow> Inl (err, p1)
           | Inr opts \<Rightarrow> Inr (opts, p1)))"

definition click_start :: "'v launch_options \<Rightarrow> 'v panel \<Rightarrow> 'v panel" where
  "click_start opts p =
     p \<lparr> playBtn_display := ''none'',
         info_display := ''block'',
         engine_runs := engine_runs p @ [opts] \<rparr>"

definition click_listen :: "'v world \<Rightarrow> 'v panel \<Rightarrow> 'v error option \<times> 'v panel" where
  "click_listen w p =
     (case db_get ''launcher'' (db_launcher (w_database w)) of
        Inl err \<Rightarrow> (Some err, p)
      | Inr launcherSettings \<Rightarrow> (None, setupLaunchListeners launcherSettings p))"

definition play_click :: "env \<Rightarrow> 'v world \<Rightarrow> 'v panel \<Rightarrow> 'v error option \<times> 'v panel" where
  "play_click e w p =
     (case click_prepare e w p of
        Inl (err, p1) \<Rightarrow> (Some err, p1)
      | Inr (opts, p1) \<Rightarrow> click_listen w (click_start opts p1))"

subsection \<open>The server status\<close>

text \<open>
  How the awaited \<^verbatim>\<open>getStatus()\<close> of the status library settles: fulfilled with a reply
  (whether its \<^verbatim>\<open>error\<close> property is truthy, and its \<^verbatim>\<open>playersConnect\<close>), or rejected.
\<close>

record server_ping =
  ping_error :: bool
  playersConnect :: jsnum

datatype 'v settled = Fulfilled server_ping | Rejected 'v

definition initStatusServer :: "env \<Rightarrow> 'v settled \<Rightarrow> 'v panel \<Rightarrow> 'v error option \<times> 'v panel" where
  "initStatusServer e outcome p =
     (case outcome of
        Rejected reason \<Rightarrow> (Some (Rejection reason), p)
      | Fulfilled serverPing \<Rightarrow>
          (if \<not> ping_error serverPing
           then (None, p \<lparr> statusText := translate e ''server_online'',
                          indicator_offline := False,
                          playersCount := number_to_string e (playersConnect serverPing) \<rparr>)
           else (None, p \<lparr> statusText := translate e ''server_unavailable'',
                          indicator_offline := True,
                          playersCount := ''0'' \<rparr>)))"

section \<open>A sample panel\<close>

text \<open>
  One concrete environment, world and panel, on which the statements below are tried:
  every text is translated to its own key, all the settings records are present, the
  close-behaviour preference is \<^verbatim>\<open>close-launcher\<close>, and the panel is as it is before the
  first click, with an empty mods list and no listener.
\<close>

definition sample_env :: env where
  "sample_env = \<lparr> translate = (\<lambda>key. key), shortest_digits = (\<lambda>q. []) \<rparr>"

definition sample_settings :: launcher_settings where
  "sample_settings = \<lparr> launcher_close = Some ''close-launcher'' \<rparr>"

definition sample_database :: "string database" where
  "sample_database =
     \<lparr> db_accounts_selected = Some ''id-1'',
       db_accounts = (\<lambda>uuid. if uuid = ''id-1'' then Some ''account-1'' else None),
       db_ram = Some (Finite Pos 1, Finite Pos 2),
       db_java_path = Some ''launcher'',
       db_java_args = Some [],
       db_screen = Some (''<auto>'', ''<auto>''),
       db_launcher = Some sample_settings \<rparr>"

text \<open>The sample database under another close-behaviour preference.\<close>

definition sample_database_with :: "string option \<Rightarrow> string database" where
  "sample_database_with pref = sample_database \<lparr> db_launcher := Some \<lparr> launcher_close = pref \<rparr> \<rparr>"

definition sample_config :: "string config" where
  "sample_config =
     \<lparr> config_dataDirectory = ''azurite'',
       config_game_version = ''1.20.1'',
       config_loader_type = ''forge'',
       config_loader_build = ''latest'',
       config_loader_enable = ''true'',
       config_verify = ''true'',
       config_ignored = Ignored_array [''options.txt''],
       config_java = ''true'' \<rparr>"

definition sample_world :: "string world" where
  "sample_world =
     \<lparr> w_package = \<lparr> pkg_user = None, pkg_settings = ''https://example.org/launcher'', pkg_env = ''azuriom'' \<rparr>,
       w_process = \<lparr> dataDirectory = ''/home/player'', darwin = False \<rparr>,
       w_config = sample_config,
       w_database = sample_database,
       w_modsDirectory = Absent \<rparr>"

definition sample_panel :: "string panel" where
  "sample_panel =
     \<lparr> playBtn_display = ''block'',
       info_display = ''none'',
       info_innerHTML = ''verification'',
       progressBar_display = ''none'',
       progressBar_value = None,
       progressBar_max = None,
       mods_list = Some [],
       statusText = ''offline'',
       indicator_offline = True,
       playersCount = [],
       ipc_sent = [],
       console = [],
       engine_runs = [],
       listeners = [] \<rparr>"

section \<open>Notions used in the statements\<close>

text \<open>
  The \<^verbatim>\<open>main-window-show\<close> messages one close event sends: one per registered set of
  listeners whose captured preference is \<^verbatim>\<open>close-launcher\<close>.
\<close>

definition close_shows :: "launcher_settings list \<Rightarrow> ipc_message list" where
  "close_shows lss =
     concat (map (\<lambda>ls. if launcher_close ls = Some ''close-launcher'' then [Main_window_show] else []) lss)"

definition is_close :: "'v engine_event \<Rightarrow> bool" where
  "is_close ev = (case ev of Close _ \<Rightarrow> True | _ \<Rightarrow> False)"

text \<open>
  The bound on the distance between the Number that \<^verbatim>\<open>(progress / size) * 100\<close>
  evaluates to and the exact percentage \<open>q\<close>: two roundings to binary64, absolute up to
  100 percent and relative above.
\<close>

definition tolerance :: "rat \<Rightarrow> rat" where
  "tolerance q = (if q \<le> 100 then 1 / 2 ^ 45 else q / 2 ^ 51)"


section \<open>The listeners on the engine's events\<close>

lemma fold_listener_error:
  "fold (\<lambda>ls. listener e ls (Error err)) lss p
     = p \<lparr> console := console p @ replicate (length lss) (Log_object err) \<rparr>"
proof (induction lss arbitrary: p)
  case Nil
  show ?case by simp
next
  case (Cons ls lss)
  have "fold (\<lambda>ls. listener e ls (Error err)) (ls # lss) p
          = fold (\<lambda>ls. listener e ls (Error err)) lss (listener e ls (Error err) p)"
    by (simp only: fold_simps)
  also have "\<dots> = (listener e ls (Error err) p)
      \<lparr> console := console (listener e ls (Error err) p) @ replicate (length lss) (Log_object err) \<rparr>"
    by (rule Cons.IH)
  also have "\<dots> = p \<lparr> console := console p @ replicate (length (ls # lss)) (Log_object err) \<rparr>"
    by simp
  finally show ?case .
qed

lemma emit_error:
  "emit e (Error err) p = p \<lparr> console := console p @ replicate (length (listeners p)) (Log_object err) \<rparr>"
  by (simp add: emit_def fold_listener_error)

lemma fold_listener_close:
  "fold (\<lambda>ls. listener e ls (Close code)) (ls0 # lss) p
     = p \<lparr> ipc_sent := ipc_sent p @ close_shows (ls0 # lss),
           progressBar_display := ''none'',
           info_display := ''none'',
           playBtn_display := ''block'',
           info_innerHTML := translate e ''verification'',
           console := console p @ concat (replicate (length (ls0 # lss)) [New_logger ''Launcher'' ''#7289da'', Log_text ''Close'']) \<rparr>"
proof (induction lss arbitrary: p ls0)
  case Nil
  show ?case by (simp add: handleLaunchClose_def close_shows_def)
next
  case (Cons ls lss)
  have "fold (\<lambda>ls. listener e ls (Close code)) (ls0 # ls # lss) p
          = fold (\<lambda>ls. listener e ls (Close code)) (ls # lss) (listener e ls0 (Close code) p)"
    by (simp only: fold_simps)
  also have "\<dots> = (listener e ls0 (Close code) p)
      \<lparr> ipc_sent := ipc_sent (listener e ls0 (Close code) p) @ close_shows (ls # lss),
           progressBar_display := ''none'',
           info_display := ''none'',
           playBtn_display := ''block'',
           info_innerHTML := translate e ''verification'',
           console := console (listener e ls0 (Close code) p) @ concat (replicate (length (ls # lss)) [New_logger ''Launcher'' ''#7289da'', Log_text ''Close'']) \<rparr>"
    by (rule Cons.IH)
  also have "\<dots> = p \<lparr> ipc_sent := ipc_sent p @ close_shows (ls0 # ls # lss),
           progressBar_display := ''none'',
           info_display := ''none'',
           playBtn_display := ''block'',
           info_innerHTML := translate e ''verification'',
           console := console p @ concat (replicate (length (ls0 # ls # lss)) [New_logger ''Launcher'' ''#7289da'', Log_text ''Close'']) \<rparr>"
    by (simp add: handleLaunchClose_def close_shows_def)
  finally show ?case .
qed

lemma emit_close:
  assumes "listeners p \<noteq> []"
  shows "emit e (Close code) p
     = p \<lparr> ipc_sent := ipc_sent p @ close_shows (listeners p),
           progressBar_display := ''none'',
           info_display := ''none'',
           playBtn_display := ''block'',
           info_innerHTML := translate e ''verification'',
           console := console p @ concat (replicate (length (listeners p)) [New_logger ''Launcher'' ''#7289da'', Log_text ''Close'']) \<rparr>"
proof -
  obtain ls0 lss where L: "listeners p = ls0 # lss"
    using assms by (cases "listeners p") auto
  show ?thesis
    unfolding emit_def L by (rule fold_listener_close)
qed

lemma listener_listeners [simp]: "listeners (listener e ls ev p) = listeners p"
  by (cases ev) (simp_all add: updateProgressBar_def handleLaunchData_def handleLaunchClose_def)

lemma fold_listener_listeners [simp]:
  "listeners (fold (\<lambda>ls. listener e ls ev) lss p) = listeners p"
  by (induction lss arbitrary: p) simp_all

lemma emit_listeners [simp]: "listeners (emit e ev p) = listeners p"
  by (simp add: emit_def)

lemma emit_all_listeners [simp]: "listeners (emit_all e evs p) = listeners p"
  unfolding emit_all_def by (induction evs arbitrary: p) simp_all

lemma listener_keeps_button:
  "\<not> is_close ev \<Longrightarrow> playBtn_display (listener e ls ev p) = playBtn_display p \<and> info_display (listener e ls ev p) = info_display p \<and> engine_runs (listener e ls ev p) = engine_runs p"
  by (cases ev) (simp_all add: is_close_def updateProgressBar_def handleLaunchData_def)

lemma fold_listener_keeps_button:
  "\<not> is_close ev \<Longrightarrow> playBtn_display (fold (\<lambda>ls. listener e ls ev) lss p) = playBtn_display p
     \<and> info_display (fold (\<lambda>ls. listener e ls ev) lss p) = info_display p"
  by (induction lss arbitrary: p) (simp_all add: listener_keeps_button)

lemma emit_keeps_button:
  "\<not> is_close ev \<Longrightarrow> playBtn_display (emit e ev p) = playBtn_display p \<and> info_display (emit e ev p) = info_display p"
  by (simp add: emit_def fold_listener_keeps_button)

lemma emit_all_keeps_button:
  "\<forall>ev \<in> set evs. \<not> is_close ev \<Longrightarrow> playBtn_display (emit_all e evs p) = playBtn_display p \<and> info_display (emit_all e evs p) = info_display p"
  unfolding emit_all_def by (induction evs arbitrary: p) (simp_all add: emit_keeps_button)

lemma engine_runs_listener [simp]: "engine_runs (listener e ls ev p) = engine_runs p"
  by (cases ev) (simp_all add: updateProgressBar_def handleLaunchData_def handleLaunchClose_def)

lemma engine_runs_fold [simp]: "engine_runs (fold (\<lambda>ls. listener e ls ev) lss p) = engine_runs p"
  by (induction lss arbitrary: p) simp_all

lemma engine_runs_emit [simp]: "engine_runs (emit e ev p) = engine_runs p"
  by (simp add: emit_def)


text \<open>
  Claim C5. On an error event of the engine the panel only logs the error, once per
  registered set of listeners: the visibility of the progress bar, the info text and its
  visibility, the visibility of the play button and the messages sent to the host window
  are as they were. The reset is the work of a close event that follows: with a listener
  registered, it hides the progress bar and the info text, shows the play button and
  puts the verification label back.
\<close>

theorem error_event_only_logs:
  "progressBar_display (emit e (Error err) p) = progressBar_display p
   \<and> info_innerHTML (emit e (Error err) p) = info_innerHTML p
   \<and> info_display (emit e (Error err) p) = info_display p
   \<and> playBtn_display (emit e (Error err) p) = playBtn_display p
   \<and> ipc_sent (emit e (Error err) p) = ipc_sent p
   \<and> console (emit e (Error err) p) = console p @ replicate (length (listeners p)) (Log_object err)
   \<and> (listeners p \<noteq> [] \<longrightarrow>
        progressBar_display (emit e (Close code) (emit e (Error err) p)) = ''none''
        \<and> info_display (emit e (Close code) (emit e (Error err) p)) = ''none''
        \<and> playBtn_display (emit e (Close code) (emit e (Error err) p)) = ''block''
        \<and> info_innerHTML (emit e (Close code) (emit e (Error err) p)) = translate e ''verification'')"
  by (simp add: emit_error emit_close)

theorem error_event_only_logs_witness:
  "listeners (setupLaunchListeners sample_settings sample_panel) \<noteq> []
   \<and> playBtn_display (emit sample_env (Error ''failed'') (setupLaunchListeners sample_settings sample_panel)) = ''block''
   \<and> info_display (emit sample_env (Error ''failed'') (setupLaunchListeners sample_settings sample_panel)) = ''none''
   \<and> console (emit sample_env (Error ''failed'') (setupLaunchListeners sample_settings sample_panel)) = [Log_object ''failed'']
   \<and> info_innerHTML (emit sample_env (Close (Finite Pos 0))
         (emit sample_env (Error ''failed'') (setupLaunchListeners sample_settings sample_panel))) = ''verification''"
  using error_event_only_logs [of sample_env "''failed''" "setupLaunchListeners sample_settings sample_panel" "Finite Pos 0"]
  by (simp add: setupLaunchListeners_def sample_panel_def sample_env_def)

section \<open>The launch request\<close>

lemma sample_options:
  "\<exists>opts. getLaunchOptions sample_env (w_package sample_world) (w_process sample_world)
      (w_config sample_world) (w_database sample_world) = Inr opts"
  by (simp add: getLaunchOptions_def db_get_def sample_world_def sample_database_def)

lemma getLaunchOptions_launcher:
  assumes "getLaunchOptions e pkg pr cfg db = Inr opts"
  shows "\<exists>ls. db_launcher db = Some ls \<and> detached opts = (launcher_close ls \<noteq> Some ''close-all'')"
  using assms
  by (auto simp add: getLaunchOptions_def db_get_def split: option.splits prod.splits)

lemma getLaunchOptions_present:
  assumes "db_accounts_selected db = Some uuid" "db_accounts db uuid = Some account"
    "db_ram db = Some ram" "db_java_path db = Some javaPath" "db_java_args db = Some javaArgs"
    "db_screen db = Some resolution" "db_launcher db = Some ls"
  shows "\<exists>opts. getLaunchOptions e pkg pr cfg db = Inr opts
           \<and> detached opts = (launcher_close ls \<noteq> Some ''close-all'')"
  using assms by (cases ram) (simp add: getLaunchOptions_def db_get_def)

text \<open>
  Claim C10. In every launch request that \<^verbatim>\<open>getLaunchOptions\<close> assembles, the launcher
  settings it read are present and the detached flag is false exactly when their
  close-behaviour preference is \<^verbatim>\<open>close-all\<close>. And a request is assembled whenever the
  seven settings records are present, whatever the preference: with the detached flag
  false under \<^verbatim>\<open>close-all\<close>, and true under every other preference, \<^verbatim>\<open>close-launcher\<close> and
  an unset one among them.
\<close>

theorem detached_unless_close_all:
  "(getLaunchOptions e pkg pr cfg db = Inr opts \<longrightarrow>
      (\<exists>ls. db_launcher db = Some ls \<and> (detached opts \<longleftrightarrow> launcher_close ls \<noteq> Some ''close-all'')))
   \<and> (db_accounts_selected db = Some uuid \<and> db_accounts db uuid = Some account
        \<and> db_ram db = Some ram \<and> db_java_path db = Some javaPath \<and> db_java_args db = Some javaArgs
        \<and> db_screen db = Some resolution \<and> db_launcher db = Some ls' \<longrightarrow>
      (\<exists>opts'. getLaunchOptions e pkg pr cfg db = Inr opts'
         \<and> (detached opts' \<longleftrightarrow> launcher_close ls' \<noteq> Some ''close-all'')))"
proof (intro conjI impI)
  assume "getLaunchOptions e pkg pr cfg db = Inr opts"
  then show "\<exists>ls. db_launcher db = Some ls \<and> (detached opts \<longleftrightarrow> launcher_close ls \<noteq> Some ''close-all'')"
    by (rule getLaunchOptions_launcher)
next
  assume "db_accounts_selected db = Some uuid \<and> db_accounts db uuid = Some account
        \<and> db_ram db = Some ram \<and> db_java_path db = Some javaPath \<and> db_java_args db = Some javaArgs
        \<and> db_screen db = Some resolution \<and> db_launcher db = Some ls'"
  then show "\<exists>opts'. getLaunchOptions e pkg pr cfg db = Inr opts'
         \<and> (detached opts' \<longleftrightarrow> launcher_close ls' \<noteq> Some ''close-all'')"
    using getLaunchOptions_present [of db uuid account ram javaPath javaArgs resolution ls' e pkg pr cfg]
    by blast
qed

theorem detached_unless_close_all_witness:
  "(\<exists>opts ls. getLaunchOptions sample_env (w_package sample_world) (w_process sample_world)
        (w_config sample_world) (sample_database_with (Some ''close-all'')) = Inr opts
      \<and> db_launcher (sample_database_with (Some ''close-all'')) = Some ls
      \<and> launcher_close ls = Some ''close-all''
      \<and> detached opts = False)
   \<and> (\<exists>opts. getLaunchOptions sample_env (w_package sample_world) (w_process sample_world)
        (w_config sample_world) (sample_database_with (Some ''close-all'')) = Inr opts
      \<and> detached opts = False)
   \<and> (\<exists>opts. getLaunchOptions sample_env (w_package sample_world) (w_process sample_world)
        (w_config sample_world) (sample_database_with (Some ''close-launcher'')) = Inr opts
      \<and> detached opts = True)
   \<and> (\<exists>opts. getLaunchOptions sample_env (w_package sample_world) (w_process sample_world)
        (w_config sample_world) (sample_database_with None) = Inr opts
      \<and> detached opts = True)"
proof -
  have p: "db_accounts_selected (sample_database_with pref) = Some ''id-1''
        \<and> db_accounts (sample_database_with pref) ''id-1'' = Some ''account-1''
        \<and> db_ram (sample_database_with pref) = Some (Finite Pos 1, Finite Pos 2)
        \<and> db_java_path (sample_database_with pref) = Some ''launcher''
        \<and> db_java_args (sample_database_with pref) = Some []
        \<and> db_screen (sample_database_with pref) = Some (''<auto>'', ''<auto>'')
        \<and> db_launcher (sample_database_with pref) = Some \<lparr> launcher_close = pref \<rparr>" for pref
    by (simp add: sample_database_with_def sample_database_def)
  note t = detached_unless_close_all [THEN conjunct2, rule_format, OF p,
      of sample_env "w_package sample_world" "w_process sample_world" "w_config sample_world"]
  from t [of "Some ''close-all''"]
  obtain opts where o: "getLaunchOptions sample_env (w_package sample_world) (w_process sample_world)
        (w_config sample_world) (sample_database_with (Some ''close-all'')) = Inr opts" by blast
  from detached_unless_close_all [THEN conjunct1, rule_format, OF o]
  have "db_launcher (sample_database_with (Some ''close-all'')) = Some \<lparr> launcher_close = Some ''close-all'' \<rparr>
      \<and> launcher_close \<lparr> launcher_close = Some ''close-all'' \<rparr> = Some ''close-all''
      \<and> detached opts = False"
    by (simp add: sample_database_with_def)
  with o have a: "\<exists>opts ls. getLaunchOptions sample_env (w_package sample_world) (w_process sample_world)
        (w_config sample_world) (sample_database_with (Some ''close-all'')) = Inr opts
      \<and> db_launcher (sample_database_with (Some ''close-all'')) = Some ls
      \<and> launcher_close ls = Some ''close-all''
      \<and> detached opts = False" by blast
  from t [of "Some ''close-all''"] t [of "Some ''close-launcher''"] t [of None]
  have "(\<exists>opts. getLaunchOptions sample_env (w_package sample_world) (w_process sample_world)
        (w_config sample_world) (sample_database_with (Some ''close-all'')) = Inr opts
      \<and> detached opts = False)
   \<and> (\<exists>opts. getLaunchOptions sample_env (w_package sample_world) (w_process sample_world)
        (w_config sample_world) (sample_database_with (Some ''close-launcher'')) = Inr opts
      \<and> detached opts = True)
   \<and> (\<exists>opts. getLaunchOptions sample_env (w_package sample_world) (w_process sample_world)
        (w_config sample_world) (sample_database_with None) = Inr opts
      \<and> detached opts = True)" by simp
  with a show ?thesis by (intro conjI) simp_all
qed

section \<open>Starting a launch\<close>

lemma verifyMods_only_mods_list:
  assumes "d \<noteq> Not_directory"
  shows "\<exists>m. verifyModsBeforeLaunch d p = Inr (p \<lparr> mods_list := m \<rparr>)"
proof (cases "mods_list p")
  case None
  have "verifyModsBeforeLaunch d p = Inr (p \<lparr> mods_list := mods_list p \<rparr>)"
    by (simp add: verifyModsBeforeLaunch_def None)
  then show ?thesis ..
next
  case (Some old)
  show ?thesis
  proof (cases d)
    case Absent
    then have "verifyModsBeforeLaunch d p = Inr (p \<lparr> mods_list := Some [no_mods_text] \<rparr>)"
      by (simp add: verifyModsBeforeLaunch_def Some displayEmptyModsMessage_def)
    then show ?thesis ..
  next
    case (Directory files)
    show ?thesis
    proof (cases "filter (\<lambda>file. endsWith file ''.jar'') files = []")
      case True
      then have "verifyModsBeforeLaunch d p = Inr (p \<lparr> mods_list := Some [no_mods_text] \<rparr>)"
        by (simp add: verifyModsBeforeLaunch_def Some Directory displayEmptyModsMessage_def)
      then show ?thesis ..
    next
      case False
      then have "verifyModsBeforeLaunch d p = Inr (p \<lparr> mods_list :=
          Some (fold (\<lambda>m children. children @ [m]) (filter (\<lambda>file. endsWith file ''.jar'') files) []) \<rparr>)"
        by (simp add: verifyModsBeforeLaunch_def Some Directory)
      then show ?thesis ..
    qed
  next
    case Not_directory
    with assms show ?thesis by simp
  qed
qed

lemma mods_list_listener: "mods_list (listener e ls ev p) = mods_list p"
  by (cases ev) (simp_all add: updateProgressBar_def handleLaunchData_def handleLaunchClose_def)

lemma mods_list_fold: "mods_list (fold (\<lambda>ls. listener e ls ev) lss p) = mods_list p"
  by (induction lss arbitrary: p) (simp_all add: mods_list_listener)

lemma mods_list_emit: "mods_list (emit e ev p) = mods_list p"
  by (simp add: emit_def mods_list_fold)

lemma verifyMods_without_element:
  assumes "mods_list p = None"
  shows "verifyModsBeforeLaunch d p = Inr (p \<lparr> mods_list := None \<rparr>)"
  using assms by (simp add: verifyModsBeforeLaunch_def)

lemma click_on_regular_file:
  assumes "mods_list p \<noteq> None" "w_modsDirectory w = Not_directory"
  shows "play_click e w p = (Some ENOTDIR, p)"
proof -
  obtain old where "mods_list p = Some old" using assms(1) by auto
  then have "verifyModsBeforeLaunch (w_modsDirectory w) p = Inl ENOTDIR"
    by (simp add: verifyModsBeforeLaunch_def assms(2))
  then show ?thesis by (simp add: play_click_def click_prepare_def)
qed

lemma verifyMods_mods_list:
  assumes d: "mods_list p = None \<or> d \<noteq> Not_directory"
  shows "\<exists>m. (mods_list p = None \<longrightarrow> m = None) \<and> verifyModsBeforeLaunch d p = Inr (p \<lparr> mods_list := m \<rparr>)"
proof (cases "mods_list p")
  case None
  have "(mods_list p = None \<longrightarrow> (None :: string list option) = None)
      \<and> verifyModsBeforeLaunch d p = Inr (p \<lparr> mods_list := None \<rparr>)"
    using verifyMods_without_element [OF None] by simp
  then show ?thesis ..
next
  case (Some a)
  with d have "d \<noteq> Not_directory" by simp
  from verifyMods_only_mods_list [OF this]
  obtain m where "verifyModsBeforeLaunch d p = Inr (p \<lparr> mods_list := m \<rparr>)" by blast
  then have "(mods_list p = None \<longrightarrow> m = None) \<and> verifyModsBeforeLaunch d p = Inr (p \<lparr> mods_list := m \<rparr>)"
    using Some by simp
  then show ?thesis ..
qed

lemma click_reaches_start:
  assumes o: "getLaunchOptions e (w_package w) (w_process w) (w_config w) (w_database w) = Inr opts"
    and d: "mods_list p = None \<or> w_modsDirectory w \<noteq> Not_directory"
  shows "\<exists>m ls. (mods_list p = None \<longrightarrow> m = None)
      \<and> play_click e w p = (None, p \<lparr> mods_list := m, playBtn_display := ''none'', info_display := ''block'',
            engine_runs := engine_runs p @ [opts], listeners := listeners p @ [ls] \<rparr>)"
proof -
  obtain ls where ls: "db_launcher (w_database w) = Some ls"
    using getLaunchOptions_launcher [OF o] by blast
  from verifyMods_mods_list [OF d]
  obtain m where mm: "(mods_list p = None \<longrightarrow> m = None)
      \<and> verifyModsBeforeLaunch (w_modsDirectory w) p = Inr (p \<lparr> mods_list := m \<rparr>)" ..
  note m = mm [THEN conjunct1] and p1 = mm [THEN conjunct2]
  have c: "play_click e w p = (None, p \<lparr> mods_list := m, playBtn_display := ''none'', info_display := ''block'',
            engine_runs := engine_runs p @ [opts], listeners := listeners p @ [ls] \<rparr>)"
    by (simp add: play_click_def click_prepare_def click_start_def click_listen_def o p1 ls db_get_def
        setupLaunchListeners_def)
  show ?thesis
    by (rule exI [of _ m], rule exI [of _ ls], rule conjI, rule m, rule c)
qed

lemma sample_click:
  "mods_list p \<noteq> None \<Longrightarrow> \<exists>opts. play_click sample_env sample_world p =
     (None, p \<lparr> mods_list := Some [no_mods_text], playBtn_display := ''none'', info_display := ''block'',
                engine_runs := engine_runs p @ [opts], listeners := listeners p @ [sample_settings] \<rparr>)"
  by (auto simp add: play_click_def click_prepare_def click_start_def click_listen_def
      getLaunchOptions_def db_get_def sample_world_def sample_database_def
      verifyModsBeforeLaunch_def displayEmptyModsMessage_def setupLaunchListeners_def)

text \<open>
  Two clicks in quick succession: the second arrives while the first awaits its request,
  the button still shown; both go on to start the engine.
\<close>

lemma double_click_race:
  "\<exists>o1 o2 p1 p2.
     click_prepare sample_env sample_world sample_panel = Inr (o1, p1)
     \<and> playBtn_display p1 = ''block''
     \<and> click_prepare sample_env sample_world p1 = Inr (o2, p2)
     \<and> playBtn_display p2 = ''block''
     \<and> engine_runs (click_start o2 (snd (click_listen sample_world (click_start o1 p2)))) = [o1, o2]"
proof -
  obtain opts where o: "getLaunchOptions sample_env (w_package sample_world) (w_process sample_world)
      (w_config sample_world) (w_database sample_world) = Inr opts"
    using sample_options by blast
  define p1 where "p1 = sample_panel \<lparr> mods_list := Some [no_mods_text] \<rparr>"
  have "verifyModsBeforeLaunch (w_modsDirectory sample_world) sample_panel = Inr p1"
    by (simp add: p1_def verifyModsBeforeLaunch_def displayEmptyModsMessage_def
        sample_world_def sample_panel_def)
  then have a: "click_prepare sample_env sample_world sample_panel = Inr (opts, p1)"
    by (simp add: click_prepare_def o)
  have "verifyModsBeforeLaunch (w_modsDirectory sample_world) p1 = Inr p1"
    by (simp add: p1_def verifyModsBeforeLaunch_def displayEmptyModsMessage_def
        sample_world_def sample_panel_def)
  then have b: "click_prepare sample_env sample_world p1 = Inr (opts, p1)"
    by (simp add: click_prepare_def o)
  have c: "playBtn_display p1 = ''block''" by (simp add: p1_def sample_panel_def)
  have d: "engine_runs (click_start opts (snd (click_listen sample_world (click_start opts p1)))) = [opts, opts]"
    by (simp add: click_start_def click_listen_def db_get_def setupLaunchListeners_def p1_def
        sample_world_def sample_database_def sample_panel_def)
  from a b c d show ?thesis by blast
qed

text \<open>
  Claim C2, as amended. The handler of the play button has no rejection and does not
  look at whether a launch is in progress. Whenever the launch request can be assembled,
  a click has one of two outcomes, whatever the panel's state, a launch in progress
  included. If the document has the \<^verbatim>\<open>.mods-list\<close> element and the mods path exists
  without being a directory, the click ends with the \<^verbatim>\<open>ENOTDIR\<close> of \<^verbatim>\<open>readdirSync\<close> before
  anything is started, the panel as it was. In every other case the click returns
  without an error and starts one more run of the engine. What keeps a second launch
  away is the button alone: the click hides it, no event but close shows it again, and
  the close event does. A click after the close event starts the next run.
\<close>

theorem click_never_rejects:
  assumes "getLaunchOptions e (w_package w) (w_process w) (w_config w) (w_database w) = Inr opts"
  shows "(mods_list p \<noteq> None \<and> w_modsDirectory w = Not_directory \<longrightarrow>
            play_click e w p = (Some ENOTDIR, p))
      \<and> (mods_list p = None \<or> w_modsDirectory w \<noteq> Not_directory \<longrightarrow>
           (\<exists>p'. play_click e w p = (None, p')
              \<and> engine_runs p' = engine_runs p @ [opts]
              \<and> playBtn_display p' = ''none''
              \<and> (\<forall>evs. (\<forall>ev \<in> set evs. \<not> is_close ev) \<longrightarrow> playBtn_display (emit_all e evs p') = ''none'')
              \<and> playBtn_display (emit e (Close code) p') = ''block''
              \<and> (\<exists>p''. play_click e w (emit e (Close code) p') = (None, p'')
                     \<and> engine_runs p'' = engine_runs p @ [opts, opts])))"
proof (intro conjI impI)
  assume "mods_list p \<noteq> None \<and> w_modsDirectory w = Not_directory"
  then show "play_click e w p = (Some ENOTDIR, p)" by (simp add: click_on_regular_file)
next
  assume d: "mods_list p = None \<or> w_modsDirectory w \<noteq> Not_directory"
  from click_reaches_start [OF assms d]
  obtain m where "\<exists>ls. (mods_list p = None \<longrightarrow> m = None)
      \<and> play_click e w p = (None, p \<lparr> mods_list := m, playBtn_display := ''none'', info_display := ''block'',
            engine_runs := engine_runs p @ [opts], listeners := listeners p @ [ls] \<rparr>)" ..
  then obtain ls where mc: "(mods_list p = None \<longrightarrow> m = None)
      \<and> play_click e w p = (None, p \<lparr> mods_list := m, playBtn_display := ''none'', info_display := ''block'',
            engine_runs := engine_runs p @ [opts], listeners := listeners p @ [ls] \<rparr>)" ..
  note m = mc [THEN conjunct1] and c = mc [THEN conjunct2]
  define p' where "p' = p \<lparr> mods_list := m, playBtn_display := ''none'', info_display := ''block'',
            engine_runs := engine_runs p @ [opts], listeners := listeners p @ [ls] \<rparr>"
  have l: "listeners p' \<noteq> []" by (simp add: p'_def)
  have ml: "mods_list (emit e (Close code) p') = m" by (simp add: p'_def mods_list_emit)
  have d2: "mods_list (emit e (Close code) p') = None \<or> w_modsDirectory w \<noteq> Not_directory"
  proof (cases "mods_list p = None")
    case True
    with m have "m = None" by simp
    then show ?thesis using ml by simp
  next
    case False
    with d show ?thesis by simp
  qed
  from click_reaches_start [OF assms d2]
  obtain m2 where "\<exists>ls2. (mods_list (emit e (Close code) p') = None \<longrightarrow> m2 = None)
      \<and> play_click e w (emit e (Close code) p') =
      (None, (emit e (Close code) p') \<lparr> mods_list := m2, playBtn_display := ''none'', info_display := ''block'',
            engine_runs := engine_runs (emit e (Close code) p') @ [opts],
            listeners := listeners (emit e (Close code) p') @ [ls2] \<rparr>)" ..
  then obtain ls2 where mc2: "(mods_list (emit e (Close code) p') = None \<longrightarrow> m2 = None)
      \<and> play_click e w (emit e (Close code) p') =
      (None, (emit e (Close code) p') \<lparr> mods_list := m2, playBtn_display := ''none'', info_display := ''block'',
            engine_runs := engine_runs (emit e (Close code) p') @ [opts],
            listeners := listeners (emit e (Close code) p') @ [ls2] \<rparr>)" ..
  note c2 = mc2 [THEN conjunct2]
  have a1: "play_click e w p = (None, p')" using c by (simp add: p'_def)
  have a2: "engine_runs p' = engine_runs p @ [opts]" by (simp add: p'_def)
  have a3: "playBtn_display p' = ''none''" by (simp add: p'_def)
  have a4: "\<forall>evs. (\<forall>ev \<in> set evs. \<not> is_close ev) \<longrightarrow> playBtn_display (emit_all e evs p') = ''none''"
    by (simp add: emit_all_keeps_button p'_def)
  have a5: "playBtn_display (emit e (Close code) p') = ''block''"
    by (simp add: emit_close [OF l])
  have a6: "\<exists>p''. play_click e w (emit e (Close code) p') = (None, p'')
             \<and> engine_runs p'' = engine_runs p @ [opts, opts]"
    using c2 by (simp add: p'_def)
  show "\<exists>p'. play_click e w p = (None, p')
              \<and> engine_runs p' = engine_runs p @ [opts]
              \<and> playBtn_display p' = ''none''
              \<and> (\<forall>evs. (\<forall>ev \<in> set evs. \<not> is_close ev) \<longrightarrow> playBtn_display (emit_all e evs p') = ''none'')
              \<and> playBtn_display (emit e (Close code) p') = ''block''
              \<and> (\<exists>p''. play_click e w (emit e (Close code) p') = (None, p'')
                     \<and> engine_runs p'' = engine_runs p @ [opts, opts])"
    by (rule exI [of _ p']) (intro conjI a1 a2 a3 a4 a5 a6)
qed

theorem click_never_rejects_witness:
  "\<exists>opts. getLaunchOptions sample_env (w_package sample_world) (w_process sample_world)
      (w_config sample_world) (w_database sample_world) = Inr opts
    \<and> w_modsDirectory sample_world = Absent
    \<and> fst (play_click sample_env sample_world sample_panel) = None
    \<and> engine_runs (snd (play_click sample_env sample_world sample_panel)) = [opts]
    \<and> mods_list sample_panel = Some []
    \<and> play_click sample_env (sample_world \<lparr> w_modsDirectory := Not_directory \<rparr>) sample_panel
        = (Some ENOTDIR, sample_panel)
    \<and> engine_runs sample_panel = []"
proof -
  obtain opts where o: "getLaunchOptions sample_env (w_package sample_world) (w_process sample_world)
      (w_config sample_world) (w_database sample_world) = Inr opts"
    using sample_options by blast
  have d: "w_modsDirectory sample_world = Absent"
    by (simp add: sample_world_def)
  then have d': "mods_list sample_panel = None \<or> w_modsDirectory sample_world \<noteq> Not_directory"
    by simp
  from click_never_rejects [OF o, of sample_panel "Finite Pos 0", THEN conjunct2, rule_format, OF d']
  obtain p' where p': "play_click sample_env sample_world sample_panel = (None, p')
     \<and> engine_runs p' = engine_runs sample_panel @ [opts]
     \<and> playBtn_display p' = ''none''
     \<and> (\<forall>evs. (\<forall>ev \<in> set evs. \<not> is_close ev) \<longrightarrow> playBtn_display (emit_all sample_env evs p') = ''none'')
     \<and> playBtn_display (emit sample_env (Close (Finite Pos 0)) p') = ''block''
     \<and> (\<exists>p''. play_click sample_env sample_world (emit sample_env (Close (Finite Pos 0)) p') = (None, p'')
                     \<and> engine_runs p'' = engine_runs sample_panel @ [opts, opts])" ..
  have en: "engine_runs sample_panel = []" by (simp add: sample_panel_def)
  have a1: "fst (play_click sample_env sample_world sample_panel) = None"
    by (simp add: p' [THEN conjunct1])
  have a2: "engine_runs (snd (play_click sample_env sample_world sample_panel)) = [opts]"
    using p' [THEN conjunct2, THEN conjunct1] en by (simp add: p' [THEN conjunct1])
  have o2: "getLaunchOptions sample_env (w_package (sample_world \<lparr> w_modsDirectory := Not_directory \<rparr>))
      (w_process (sample_world \<lparr> w_modsDirectory := Not_directory \<rparr>))
      (w_config (sample_world \<lparr> w_modsDirectory := Not_directory \<rparr>))
      (w_database (sample_world \<lparr> w_modsDirectory := Not_directory \<rparr>)) = Inr opts"
    using o by simp
  have m: "mods_list sample_panel = Some []" by (simp add: sample_panel_def)
  then have m': "mods_list sample_panel \<noteq> None
      \<and> w_modsDirectory (sample_world \<lparr> w_modsDirectory := Not_directory \<rparr>) = Not_directory"
    by simp
  from click_never_rejects [OF o2, of sample_panel "Finite Pos 0", THEN conjunct1, rule_format, OF m']
  have b: "play_click sample_env (sample_world \<lparr> w_modsDirectory := Not_directory \<rparr>) sample_panel
        = (Some ENOTDIR, sample_panel)" .
  show ?thesis
    by (rule exI [of _ opts]) (intro conjI o d a1 a2 m b en)
qed

text \<open>
  Claim C2 as stated fails: on the sample panel the first click hides the button and
  starts a run, and a second click, with no close event in between, returns without an
  error and starts a second run.
\<close>

theorem second_click_starts_second_run:
  "playBtn_display (snd (play_click sample_env sample_world sample_panel)) = ''none''
   \<and> length (engine_runs (snd (play_click sample_env sample_world sample_panel))) = 1
   \<and> fst (play_click sample_env sample_world (snd (play_click sample_env sample_world sample_panel))) = None
   \<and> length (engine_runs (snd (play_click sample_env sample_world
        (snd (play_click sample_env sample_world sample_panel))))) = 2"
proof -
  obtain o1 where c1: "play_click sample_env sample_world sample_panel =
     (None, sample_panel \<lparr> mods_list := Some [no_mods_text], playBtn_display := ''none'', info_display := ''block'',
                engine_runs := engine_runs sample_panel @ [o1], listeners := listeners sample_panel @ [sample_settings] \<rparr>)"
    using sample_click [of sample_panel] by (auto simp add: sample_panel_def)
  let ?p1 = "sample_panel \<lparr> mods_list := Some [no_mods_text], playBtn_display := ''none'', info_display := ''block'',
                engine_runs := engine_runs sample_panel @ [o1], listeners := listeners sample_panel @ [sample_settings] \<rparr>"
  obtain o2 where c2: "play_click sample_env sample_world ?p1 =
     (None, ?p1 \<lparr> mods_list := Some [no_mods_text], playBtn_display := ''none'', info_display := ''block'',
                engine_runs := engine_runs ?p1 @ [o2], listeners := listeners ?p1 @ [sample_settings] \<rparr>)"
    using sample_click [of ?p1] by auto
  show ?thesis
    unfolding c1 snd_conv c2 fst_conv by (simp add: sample_panel_def)
qed

section \<open>The close event\<close>

lemma close_shows_one:
  "close_shows [ls] = (if launcher_close ls = Some ''close-launcher'' then [Main_window_show] else [])"
  by (simp add: close_shows_def)

lemma close_after_events:
  assumes "listeners p \<noteq> []"
  shows "progressBar_display (emit e (Close code) (emit_all e evs p)) = ''none''
    \<and> info_display (emit e (Close code) (emit_all e evs p)) = ''none''
    \<and> playBtn_display (emit e (Close code) (emit_all e evs p)) = ''block''
    \<and> info_innerHTML (emit e (Close code) (emit_all e evs p)) = translate e ''verification''
    \<and> ipc_sent (emit e (Close code) (emit_all e evs p)) = ipc_sent (emit_all e evs p) @ close_shows (listeners p)"
proof -
  have "listeners (emit_all e evs p) \<noteq> []" using assms by simp
  from emit_close [OF this] show ?thesis by simp
qed

lemma first_close_shows_once:
  assumes "listeners p = [ls]"
  shows "ipc_sent (emit e (Close code) p)
     = ipc_sent p @ (if launcher_close ls = Some ''close-launcher'' then [Main_window_show] else [])"
proof -
  have "listeners p \<noteq> []" using assms by simp
  from emit_close [OF this] show ?thesis by (simp add: assms close_shows_one)
qed

text \<open>
  Claim C3. After any events, a close event resets the panel (\<open>close_after_events\<close>),
  and while one set of listeners is registered it sends \<^verbatim>\<open>main-window-show\<close> once under
  the preference \<^verbatim>\<open>close-launcher\<close> and not at all otherwise (\<open>first_close_shows_once\<close>).
  The listeners are added to the module's one \<^verbatim>\<open>launch\<close> object at every click and
  never removed, so the claim fails from the second launch of a panel on: here the
  preference is \<^verbatim>\<open>close-launcher\<close>, the close event of the first launch sends the
  message once, and the close event of the second launch sends it twice.
\<close>

theorem second_close_shows_twice:
  "ipc_sent (emit sample_env (Close (Finite Pos 0)) (snd (play_click sample_env sample_world sample_panel)))
     = [Main_window_show]
   \<and> ipc_sent (emit sample_env (Close (Finite Pos 0)) (snd (play_click sample_env sample_world
        (emit sample_env (Close (Finite Pos 0)) (snd (play_click sample_env sample_world sample_panel))))))
     = [Main_window_show] @ [Main_window_show, Main_window_show]"
proof -
  obtain o1 where c1: "play_click sample_env sample_world sample_panel =
     (None, sample_panel \<lparr> mods_list := Some [no_mods_text], playBtn_display := ''none'', info_display := ''block'',
                engine_runs := engine_runs sample_panel @ [o1], listeners := listeners sample_panel @ [sample_settings] \<rparr>)"
    using sample_click [of sample_panel] by (auto simp add: sample_panel_def)
  define p1 where "p1 = sample_panel \<lparr> mods_list := Some [no_mods_text], playBtn_display := ''none'', info_display := ''block'',
                engine_runs := engine_runs sample_panel @ [o1], listeners := listeners sample_panel @ [sample_settings] \<rparr>"
  have l1: "listeners p1 = [sample_settings]" by (simp add: p1_def sample_panel_def)
  have i1: "ipc_sent p1 = []" by (simp add: p1_def sample_panel_def)
  define p2 where "p2 = emit sample_env (Close (Finite Pos 0)) p1"
  have i2: "ipc_sent p2 = [Main_window_show]"
    unfolding p2_def using first_close_shows_once [OF l1] by (simp add: i1 sample_settings_def)
  have l2: "listeners p2 = [sample_settings]" by (simp add: p2_def l1)
  have m2: "mods_list p2 \<noteq> None"
  proof -
    have "listeners p1 \<noteq> []" by (simp add: l1)
    from emit_close [OF this] show ?thesis by (simp add: p2_def p1_def)
  qed
  obtain o2 where c2: "play_click sample_env sample_world p2 =
     (None, p2 \<lparr> mods_list := Some [no_mods_text], playBtn_display := ''none'', info_display := ''block'',
                engine_runs := engine_runs p2 @ [o2], listeners := listeners p2 @ [sample_settings] \<rparr>)"
    using sample_click [OF m2] by auto
  define p3 where "p3 = p2 \<lparr> mods_list := Some [no_mods_text], playBtn_display := ''none'', info_display := ''block'',
                engine_runs := engine_runs p2 @ [o2], listeners := listeners p2 @ [sample_settings] \<rparr>"
  have l3: "listeners p3 = [sample_settings, sample_settings]" by (simp add: p3_def l2)
  have i3: "ipc_sent p3 = [Main_window_show]" by (simp add: p3_def i2)
  have "listeners p3 \<noteq> []" by (simp add: l3)
  from emit_close [OF this]
  have i4: "ipc_sent (emit sample_env (Close (Finite Pos 0)) p3) = [Main_window_show] @ [Main_window_show, Main_window_show]"
    by (simp add: l3 i3 close_shows_def sample_settings_def)
  have s1: "snd (play_click sample_env sample_world sample_panel) = p1"
    by (simp add: c1 p1_def)
  have s3: "snd (play_click sample_env sample_world p2) = p3"
    by (simp add: c2 p3_def)
  show ?thesis
    unfolding s1 p2_def [symmetric] s3 using i2 i4 by simp
qed

section \<open>The server status\<close>

text \<open>
  Claim C4. A reply of the status call whose \<^verbatim>\<open>error\<close> property is set gives the
  degraded display: the unavailable label, the offline indicator and the player count
  \<^verbatim>\<open>0\<close>, and nothing is thrown. The await of the status call (line 310) stands in no
  \<^verbatim>\<open>try\<close> block and has no \<^verbatim>\<open>catch\<close>: a status call that is rejected ends
  \<^verbatim>\<open>initStatusServer\<close> with that rejection, passed on to the caller, and the status
  text, the indicator and the player count stay as they were. The claim fails for every
  failure that reaches the panel as a rejection.
\<close>

theorem status_rejection_unhandled:
  "initStatusServer e (Fulfilled \<lparr> ping_error = True, playersConnect = n \<rparr>) p
     = (None, p \<lparr> statusText := translate e ''server_unavailable'',
                   indicator_offline := True,
                   playersCount := ''0'' \<rparr>)
   \<and> initStatusServer e (Rejected reason) p = (Some (Rejection reason), p)
   \<and> fst (initStatusServer sample_env (Rejected ''timed out'') sample_panel) = Some (Rejection ''timed out'')
   \<and> playersCount (snd (initStatusServer sample_env (Rejected ''timed out'') sample_panel)) = []"
  by (simp add: initStatusServer_def sample_panel_def)

section \<open>The mods list\<close>

lemma endsWith_iff: "endsWith s suffix \<longleftrightarrow> (\<exists>front. s = front @ suffix)"
proof
  assume "endsWith s suffix"
  then have "s = take (length s - length suffix) s @ suffix"
    by (metis append_take_drop_id endsWith_def)
  then show "\<exists>front. s = front @ suffix" ..
next
  assume "\<exists>front. s = front @ suffix"
  then show "endsWith s suffix" by (auto simp add: endsWith_def)
qed

lemma fold_append_children: "fold (\<lambda>m children. children @ [m]) mods acc = acc @ mods"
  by (induction mods arbitrary: acc) simp_all

text \<open>
  Claim C7, as amended. In a document that has the \<^verbatim>\<open>.mods-list\<close> element: when the
  mods directory does not exist, the list shows the fixed placeholder and nothing is
  thrown; when it is a directory, the list shows the entries whose names end with
  \<^verbatim>\<open>.jar\<close>, all of them and no other, in the order of the listing, and the placeholder
  when there is none. (Without the element the function returns at once.)
\<close>

theorem mods_list_rendering:
  assumes "mods_list p = Some old"
  shows "verifyModsBeforeLaunch Absent p = Inr (p \<lparr> mods_list := Some [no_mods_text] \<rparr>)
    \<and> verifyModsBeforeLaunch (Directory files) p
        = Inr (p \<lparr> mods_list := Some (if filter (\<lambda>file. endsWith file ''.jar'') files = [] then [no_mods_text]
                                        else filter (\<lambda>file. endsWith file ''.jar'') files) \<rparr>)"
  by (simp add: verifyModsBeforeLaunch_def assms displayEmptyModsMessage_def fold_append_children)

theorem mods_list_rendering_witness:
  "mods_list sample_panel = Some []
   \<and> verifyModsBeforeLaunch Absent sample_panel = Inr (sample_panel \<lparr> mods_list := Some [no_mods_text] \<rparr>)
   \<and> verifyModsBeforeLaunch (Directory [''sodium.jar'', ''notes.txt'', ''iris.jar'']) sample_panel
        = Inr (sample_panel \<lparr> mods_list := Some [''sodium.jar'', ''iris.jar''] \<rparr>)"
proof -
  have m: "mods_list sample_panel = Some []" by (simp add: sample_panel_def)
  from mods_list_rendering [OF m, of "[''sodium.jar'', ''notes.txt'', ''iris.jar'']"] m
  show ?thesis by (simp add: endsWith_def)
qed

text \<open>
  Claim C7 as stated fails: in a document without the \<^verbatim>\<open>.mods-list\<close> element and with
  no mods directory, the function returns with nothing rendered.
\<close>

theorem no_mods_list_element_nothing_rendered:
  "verifyModsBeforeLaunch Absent (sample_panel \<lparr> mods_list := None \<rparr>) = Inr (sample_panel \<lparr> mods_list := None \<rparr>)
   \<and> mods_list (sample_panel \<lparr> mods_list := None \<rparr>) \<noteq> Some [no_mods_text]"
  by (simp add: verifyModsBeforeLaunch_def)

section \<open>The percentage of a progress or check event\<close>

text \<open>
  Claim C1, as amended. \<^verbatim>\<open>updateProgressBar\<close> has no guard for a total of zero: the
  quotient is taken as the Number division gives it, without an exception, and the text
  shown is \<^verbatim>\<open>NaN%\<close> when the current count is zero too, and \<^verbatim>\<open>Infinity%\<close> (with a minus
  sign when the signs differ) otherwise. It is never \<^verbatim>\<open>0%\<close>.
\<close>

theorem zero_total_percentage:
  "info_innerHTML (updateProgressBar e (Finite s c) (Finite z 0) text p)
     = text @ '' '' @ (if c = 0 then ''NaN'' else if s = z then ''Infinity'' else ''-Infinity'') @ ''%''"
  by (simp add: updateProgressBar_def sign_mult_def)

text \<open>
  Claim C1 as stated fails: a progress of 5 of 0 shows \<^verbatim>\<open>Infinity%\<close>, and a check event
  of 0 of 0 shows \<^verbatim>\<open>NaN%\<close>.
\<close>

theorem zero_total_shows_infinity:
  "info_innerHTML (updateProgressBar sample_env (Finite Pos 5) (Finite Pos 0) ''verification'' sample_panel)
     = ''verification Infinity%''
   \<and> info_innerHTML (emit sample_env (Check (Finite Pos 0) (Finite Pos 0)) (setupLaunchListeners sample_settings sample_panel))
     = ''verification NaN%''"
  by (simp add: updateProgressBar_def sign_mult_def emit_def setupLaunchListeners_def sample_panel_def sample_env_def)

section \<open>Rounding to binary64\<close>

text \<open>The nearest integer, ties to even: bounds and error.\<close>

lemma rhe_le: "z \<le> of_int b \<Longrightarrow> round_half_even z \<le> b"
proof -
  assume a: "z \<le> of_int b"
  have f: "of_int \<lfloor>z\<rfloor> \<le> z" by simp
  have fb: "\<lfloor>z\<rfloor> \<le> b" using a by (simp add: floor_le_iff)
  show ?thesis
  proof (cases "\<lfloor>z\<rfloor> = b")
    case True
    with a f have "z = of_int \<lfloor>z\<rfloor>" by simp
    then have "z - of_int \<lfloor>z\<rfloor> = 0" by simp
    then show ?thesis using True by (simp add: round_half_even_def Let_def)
  next
    case False
    with fb have "\<lfloor>z\<rfloor> + 1 \<le> b" by simp
    then show ?thesis by (auto simp add: round_half_even_def Let_def)
  qed
qed

lemma rhe_ge: "of_int a \<le> z \<Longrightarrow> a \<le> round_half_even z"
proof -
  assume "of_int a \<le> z"
  then have "a \<le> \<lfloor>z\<rfloor>" by (simp add: le_floor_iff)
  then show ?thesis by (auto simp add: round_half_even_def Let_def)
qed

lemma rhe_err: "\<bar>of_int (round_half_even z) - z\<bar> \<le> 1 / 2"
proof -
  have "of_int \<lfloor>z\<rfloor> \<le> z" "z < of_int \<lfloor>z\<rfloor> + 1" by linarith+
  then show ?thesis by (auto simp add: round_half_even_def Let_def abs_le_iff)
qed

text \<open>The binary exponent, and the spacing of the binary64 values.\<close>

lemma ilog2_bounds:
  assumes "0 < q"
  shows "2 powi ilog2 q \<le> q \<and> q < 2 powi (ilog2 q + 1)"
proof (cases "1 \<le> q")
  case True
  define x where "x = \<lfloor>q\<rfloor>"
  have x1: "1 \<le> x" using True by (simp add: x_def le_floor_iff)
  then have xpos: "0 < x" by simp
  have b1: "1 \<le> bitlen x" using xpos by (simp add: bitlen_alt_def)
  from bitlen_bounds [OF xpos]
  have lo: "2 ^ nat (bitlen x - 1) \<le> x" and hi: "x < 2 ^ nat (bitlen x)" by auto
  have e: "ilog2 q = bitlen x - 1" using True by (simp add: ilog2_def x_def)
  have "(2::rat) powi (bitlen x - 1) = 2 ^ nat (bitlen x - 1)"
    using b1 by (simp add: power_int_nonneg_exp)
  also have "\<dots> = of_int (2 ^ nat (bitlen x - 1))" by simp
  also have "\<dots> \<le> of_int x" using lo by (simp only: of_int_le_iff)
  also have "\<dots> \<le> q" by (simp add: x_def)
  finally have L: "2 powi ilog2 q \<le> q" by (simp add: e)
  have "x + 1 \<le> 2 ^ nat (bitlen x)" using hi by simp
  then have "(of_int (x + 1) :: rat) \<le> of_int (2 ^ nat (bitlen x))" by (simp only: of_int_le_iff)
  then have "(of_int x :: rat) + 1 \<le> 2 ^ nat (bitlen x)" by simp
  moreover have "q < of_int x + 1" unfolding x_def by linarith
  ultimately have "q < 2 ^ nat (bitlen x)" by linarith
  also have "(2::rat) ^ nat (bitlen x) = 2 powi (bitlen x)"
    using b1 by (simp add: power_int_nonneg_exp)
  finally have U: "q < 2 powi (ilog2 q + 1)" by (simp add: e)
  from L U show ?thesis ..
next
  case False
  then have q1: "q < 1" by simp
  define y where "y = \<lceil>1 / q\<rceil> - 1"
  have inv: "1 < 1 / q" using assms q1 by (simp add: field_simps)
  have c1: "1 / q \<le> of_int (y + 1)" unfolding y_def by simp
  have c2: "of_int y < 1 / q" unfolding y_def by linarith
  have "(1::rat) < of_int (y + 1)" using inv c1 by linarith
  then have "1 < y + 1" by (simp only: of_int_1_less_iff)
  then have ypos: "0 < y" by simp
  have b1: "1 \<le> bitlen y" using ypos by (simp add: bitlen_alt_def)
  from bitlen_bounds [OF ypos]
  have lo: "2 ^ nat (bitlen y - 1) \<le> y" and hi: "y < 2 ^ nat (bitlen y)" by auto
  have e: "ilog2 q = - bitlen y" using False by (simp add: ilog2_def y_def)
  have "y + 1 \<le> 2 ^ nat (bitlen y)" using hi by simp
  then have "(of_int (y + 1) :: rat) \<le> of_int (2 ^ nat (bitlen y))" by (simp only: of_int_le_iff)
  then have "1 / q \<le> 2 ^ nat (bitlen y)" using c1 by simp
  then have "1 \<le> 2 ^ nat (bitlen y) * q" using assms by (simp add: field_simps)
  then have "1 / 2 ^ nat (bitlen y) \<le> q" by (simp add: field_simps)
  moreover have "(2::rat) powi (- bitlen y) = 1 / 2 ^ nat (bitlen y)"
    using b1 by (simp add: power_int_minus_divide power_int_nonneg_exp)
  ultimately have L: "2 powi ilog2 q \<le> q" by (simp add: e)
  have "(of_int (2 ^ nat (bitlen y - 1)) :: rat) \<le> of_int y" using lo by (simp only: of_int_le_iff)
  then have "(2::rat) ^ nat (bitlen y - 1) \<le> of_int y" by simp
  then have "2 ^ nat (bitlen y - 1) < 1 / q" using c2 by linarith
  then have "2 ^ nat (bitlen y - 1) * q < 1" using assms by (simp add: field_simps)
  then have "q < 1 / 2 ^ nat (bitlen y - 1)" by (simp add: field_simps)
  moreover have "(2::rat) powi (- bitlen y + 1) = 1 / 2 ^ nat (bitlen y - 1)"
  proof -
    have "- bitlen y + 1 = - (bitlen y - 1)" by simp
    then have "(2::rat) powi (- bitlen y + 1) = 2 powi (- (bitlen y - 1))" by simp
    also have "\<dots> = 1 / 2 powi (bitlen y - 1)" by (rule power_int_minus_divide)
    also have "\<dots> = 1 / 2 ^ nat (bitlen y - 1)" using b1 by (simp add: power_int_nonneg_exp)
    finally show ?thesis .
  qed
  ultimately have U: "q < 2 powi (ilog2 q + 1)" by (simp add: e)
  from L U show ?thesis ..
qed

lemma ilog2_less: "0 < q \<Longrightarrow> q < 2 powi k \<Longrightarrow> ilog2 q < k"
proof (rule ccontr)
  assume q: "0 < q" "q < 2 powi k" and "\<not> ilog2 q < k"
  then have "k \<le> ilog2 q" by simp
  then have "(2::rat) powi k \<le> 2 powi ilog2 q" by (intro power_int_increasing) simp_all
  with ilog2_bounds [OF q(1)] q(2) show False by linarith
qed

lemma ilog2_le: "0 < q \<Longrightarrow> q \<le> 2 powi k \<Longrightarrow> ilog2 q \<le> k"
proof (rule ccontr)
  assume q: "0 < q" "q \<le> 2 powi k" and "\<not> ilog2 q \<le> k"
  then have "k < ilog2 q" by simp
  then have "(2::rat) powi k < 2 powi ilog2 q" by (intro power_int_strict_increasing) simp_all
  with ilog2_bounds [OF q(1)] q(2) show False by linarith
qed


lemma ulp_pos: "0 < ulp q"
  by (simp add: ulp_def)

lemma nearest_nonneg: "0 \<le> q \<Longrightarrow> 0 \<le> nearest q"
proof -
  assume "0 \<le> q"
  then have "of_int 0 \<le> q / ulp q" using ulp_pos [of q] by simp
  then have "0 \<le> round_half_even (q / ulp q)" by (rule rhe_ge)
  then show ?thesis using ulp_pos [of q] by (simp add: nearest_def)
qed

lemma grid_multiple:
  assumes "max (ilog2 q) (- 1022) - 52 \<le> j"
  shows "\<exists>n::int. (2::rat) powi j = of_int n * ulp q"
proof -
  define i where "i = max (ilog2 q) (- 1022) - 52"
  have u: "ulp q = 2 powi i" by (simp add: ulp_def i_def)
  have "0 \<le> j - i" using assms by (simp add: i_def)
  have "(2::rat) powi j = 2 powi ((j - i) + i)" by simp
  also have "\<dots> = 2 powi (j - i) * 2 powi i" by (rule power_int_add) simp
  also have "2 powi (j - i) = (2::rat) ^ nat (j - i)"
    using \<open>0 \<le> j - i\<close> by (simp add: power_int_nonneg_exp)
  also have "(2::rat) ^ nat (j - i) = of_int (2 ^ nat (j - i))" by simp
  finally have "(2::rat) powi j = of_int (2 ^ nat (j - i)) * ulp q" by (simp only: u)
  then show ?thesis ..
qed

lemma nearest_le_grid:
  assumes "0 < q" and "q \<le> of_int m * 2 powi j" and "max (ilog2 q) (- 1022) - 52 \<le> j"
  shows "nearest q \<le> of_int m * 2 powi j"
proof -
  obtain n :: int where n: "(2::rat) powi j = of_int n * ulp q"
    using grid_multiple [OF assms(3)] by blast
  have "q \<le> of_int (m * n) * ulp q" using assms(2) by (simp add: n mult.assoc)
  then have "q / ulp q \<le> of_int (m * n)" using ulp_pos [of q] by (simp add: field_simps)
  then have "round_half_even (q / ulp q) \<le> m * n" by (rule rhe_le)
  then have "(of_int (round_half_even (q / ulp q)) :: rat) \<le> of_int (m * n)"
    by (simp only: of_int_le_iff)
  then have "of_int (round_half_even (q / ulp q)) * ulp q \<le> of_int (m * n) * ulp q"
    using ulp_pos [of q] by (simp only: mult_le_cancel_right_pos)
  then show ?thesis by (simp add: nearest_def n mult.assoc)
qed

lemma nearest_ge_grid:
  assumes "0 < q" and "of_int m * 2 powi j \<le> q" and "max (ilog2 q) (- 1022) - 52 \<le> j"
  shows "of_int m * 2 powi j \<le> nearest q"
proof -
  obtain n :: int where n: "(2::rat) powi j = of_int n * ulp q"
    using grid_multiple [OF assms(3)] by blast
  have "of_int (m * n) * ulp q \<le> q" using assms(2) by (simp add: n mult.assoc)
  then have "of_int (m * n) \<le> q / ulp q" using ulp_pos [of q] by (simp add: field_simps)
  then have "m * n \<le> round_half_even (q / ulp q)" by (rule rhe_ge)
  then have "(of_int (m * n) :: rat) \<le> of_int (round_half_even (q / ulp q))"
    by (simp only: of_int_le_iff)
  then have "of_int (m * n) * ulp q \<le> of_int (round_half_even (q / ulp q)) * ulp q"
    using ulp_pos [of q] by (simp only: mult_le_cancel_right_pos)
  then show ?thesis by (simp add: nearest_def n mult.assoc)
qed

lemma nearest_err: "\<bar>nearest q - q\<bar> \<le> ulp q / 2"
proof -
  have "\<bar>of_int (round_half_even (q / ulp q)) - q / ulp q\<bar> * ulp q \<le> (1 / 2) * ulp q"
    using rhe_err [of "q / ulp q"] ulp_pos [of q] by (simp only: mult_le_cancel_right_pos)
  moreover have "\<bar>of_int (round_half_even (q / ulp q)) - q / ulp q\<bar> * ulp q = \<bar>nearest q - q\<bar>"
  proof -
    have "\<bar>of_int (round_half_even (q / ulp q)) - q / ulp q\<bar> * ulp q
        = \<bar>(of_int (round_half_even (q / ulp q)) - q / ulp q) * ulp q\<bar>"
      using ulp_pos [of q] by (simp add: abs_mult)
    also have "(of_int (round_half_even (q / ulp q)) - q / ulp q) * ulp q = nearest q - q"
      using ulp_pos [of q] by (simp add: nearest_def left_diff_distrib)
    finally show ?thesis .
  qed
  ultimately show ?thesis by simp
qed

lemma exponent_int: "0 < q \<Longrightarrow> q < 2 ^ 53 \<Longrightarrow> max (ilog2 q) (- 1022) - 52 \<le> 0"
proof -
  assume q: "0 < q" "q < 2 ^ 53"
  have "q < 2 powi 53" using q(2) by simp
  with q(1) have "ilog2 q < 53" by (rule ilog2_less)
  then show ?thesis by simp
qed

lemma nearest_le_int: "0 < q \<Longrightarrow> q < 2 ^ 53 \<Longrightarrow> q \<le> of_int b \<Longrightarrow> nearest q \<le> of_int b"
  using nearest_le_grid [of q b 0] exponent_int [of q] by simp

lemma nearest_ge_int: "0 < q \<Longrightarrow> q < 2 ^ 53 \<Longrightarrow> of_int a \<le> q \<Longrightarrow> of_int a \<le> nearest q"
  using nearest_ge_grid [of q a 0] exponent_int [of q] by simp

lemma round_mag_between_ints:
  assumes "0 < q" "q < 2 ^ 53" "of_int a \<le> q" "q \<le> of_int b"
  shows "\<exists>r. round_mag q = Some r \<and> of_int a \<le> r \<and> r \<le> of_int b"
proof -
  have "q \<le> of_int (2 ^ 53)" using assms(2) by simp
  then have "nearest q \<le> of_int (2 ^ 53)" by (rule nearest_le_int [OF assms(1,2)])
  then have "nearest q < 2 ^ 1024" by simp
  then have "round_mag q = Some (nearest q)" using assms(1) by (simp add: round_mag_def)
  with nearest_le_int [OF assms(1,2,4)] nearest_ge_int [OF assms(1,2,3)] show ?thesis by simp
qed

lemma round_mag_of_int:
  assumes "0 \<le> k" "k < 2 ^ 53"
  shows "round_mag (of_int k) = Some (of_int k)"
proof (cases "k = 0")
  case True
  then show ?thesis by (simp add: round_mag_def)
next
  case False
  with assms have p: "(0::rat) < of_int k" by simp
  have "(of_int k :: rat) < of_int (2 ^ 53)" using assms(2) by (simp only: of_int_less_iff)
  then have "(of_int k :: rat) < 2 ^ 53" by simp
  from round_mag_between_ints [OF p this, of k k] show ?thesis by auto
qed

lemma ulp_le:
  assumes "0 < q" "q < 2 powi k" "- 1021 \<le> k"
  shows "ulp q \<le> 2 powi (k - 53)"
proof -
  have "ilog2 q < k" using assms(1,2) by (rule ilog2_less)
  then have "max (ilog2 q) (- 1022) - 52 \<le> k - 53" using assms(3) by simp
  then show ?thesis unfolding ulp_def by (intro power_int_increasing) simp_all
qed

lemma round_mag_err:
  assumes "0 < q" "q < 2 powi k" "- 1021 \<le> k" "k \<le> 1023"
  shows "\<exists>r. round_mag q = Some r \<and> \<bar>r - q\<bar> \<le> 2 powi (k - 54)"
proof -
  have u: "ulp q / 2 \<le> 2 powi (k - 54)"
  proof -
    have "(2::rat) powi (k - 53) = 2 powi (k - 54) * 2"
      using power_int_add_1 [of "2::rat" "k - 54"] by simp
    then show ?thesis using ulp_le [OF assms(1,2,3)] by simp
  qed
  with nearest_err [of q] have e: "\<bar>nearest q - q\<bar> \<le> 2 powi (k - 54)" by linarith
  have "(2::rat) powi (k - 54) \<le> 2 powi k" by (intro power_int_increasing) simp_all
  moreover have "(2::rat) powi k \<le> 2 powi 1023" using assms(4) by (intro power_int_increasing) simp_all
  ultimately have "nearest q < 2 powi 1023 + 2 powi 1023" using e assms(2) by (simp add: abs_le_iff)
  also have "(2::rat) powi 1023 + 2 powi 1023 = 2 ^ 1024" by simp
  finally have "round_mag q = Some (nearest q)" using assms(1) by (simp add: round_mag_def)
  with e show ?thesis by simp
qed

lemma round_mag_le_pow2:
  assumes "0 < q" "q \<le> 2 ^ k" "k \<le> 1023"
  shows "\<exists>r. round_mag q = Some r \<and> 0 \<le> r \<and> r \<le> 2 ^ k"
proof -
  have qk: "q \<le> 2 powi (int k)" using assms(2) by simp
  have "ilog2 q \<le> int k" using assms(1) qk by (rule ilog2_le)
  then have ex: "max (ilog2 q) (- 1022) - 52 \<le> int k - 52" by simp
  have g: "(of_int (2 ^ 52) :: rat) * 2 powi (int k - 52) = 2 ^ k"
  proof -
    have "(of_int (2 ^ 52) :: rat) * 2 powi (int k - 52) = 2 powi 52 * 2 powi (int k - 52)" by simp
    also have "\<dots> = 2 powi (52 + (int k - 52))" by (rule power_int_add [symmetric]) simp
    also have "\<dots> = 2 ^ k" by simp
    finally show ?thesis .
  qed
  have "q \<le> of_int (2 ^ 52) * 2 powi (int k - 52)" using assms(2) by (simp only: g)
  from nearest_le_grid [OF assms(1) this ex] have le: "nearest q \<le> 2 ^ k" by (simp only: g)
  have "(2::rat) ^ k \<le> 2 ^ 1023" using assms(3) by (intro power_increasing) simp_all
  then have "nearest q < 2 ^ 1024" using le by simp
  then have "round_mag q = Some (nearest q)" using assms(1) by (simp add: round_mag_def)
  with le nearest_nonneg [of q] assms(1) show ?thesis by simp
qed

lemma to_double_Some: "round_mag q = Some r \<Longrightarrow> to_double s q = Finite s r"
  by (simp add: to_double_def)

lemma round_mag_zero: "round_mag 0 = Some 0"
  by (simp add: round_mag_def)

lemma round_mag_of_nat: "n < 2 ^ 53 \<Longrightarrow> round_mag (of_nat n) = Some (of_nat n)"
proof -
  assume "n < 2 ^ 53"
  then have "int n < 2 ^ 53" by (metis of_nat_less_iff of_nat_numeral of_nat_power)
  from round_mag_of_int [of "int n", OF _ this] show ?thesis by simp
qed

lemma round_mag_quotient:
  fixes n d :: nat
  assumes d: "0 < d" "d \<le> 3600" and n: "n < d * 2 ^ 40"
  shows "\<exists>r. round_mag (of_nat n / of_nat d) = Some r \<and> 0 \<le> r
           \<and> \<lfloor>r\<rfloor> = int (n div d) \<and> \<lceil>r\<rceil> = int ((n + d - 1) div d)"
proof (cases "n = 0")
  case True
  then show ?thesis using d by (simp add: round_mag_zero)
next
  case False
  define q :: rat where "q = of_nat n / of_nat d"
  define k where "k = n div d"
  define m where "m = n mod d"
  have nkm: "n = d * k + m" by (simp add: k_def m_def)
  have md: "m < d" using d by (simp add: m_def)
  have dpos: "(0::rat) < of_nat d" using d by simp
  have qpos: "0 < q" using False d by (simp add: q_def)
  define f :: rat where "f = of_nat m / of_nat d"
  have qeq: "q = of_nat k + f"
    using d by (simp add: q_def f_def nkm field_simps)
  have frac0: "0 \<le> f" by (simp add: f_def)
  have "(of_nat m :: rat) \<le> of_nat d - 1" using md by (simp add: le_diff_eq Suc_leI of_nat_diff flip: of_nat_Suc)
  then have frac1: "f \<le> 1 - 1 / of_nat d"
    using dpos by (simp add: f_def field_simps)
  have small: "(1 :: rat) / 3600 \<le> 1 / of_nat d" using d by (simp add: field_simps)
  with frac1 have frac2: "f \<le> 1 - 1 / 3600" by linarith
  have "(of_nat n :: rat) < of_nat (d * 2 ^ 40)" using n by (simp only: of_nat_less_iff)
  then have q40: "q < 2 ^ 40" using dpos by (simp add: q_def field_simps)
  then have q53: "q < 2 ^ 53" by simp
  have lo: "of_int (int k) \<le> q" using frac0 by (simp add: qeq)
  have hi: "q \<le> of_int (int k + 1)" using frac2 by (simp add: qeq)
  obtain r where r: "round_mag q = Some r" "of_int (int k) \<le> r" "r \<le> of_int (int k + 1)"
    using round_mag_between_ints [OF qpos q53 lo hi] by blast
  have "q < 2 powi 40" using q40 by simp
  from round_mag_err [OF qpos this] r(1)
  have "\<bar>r - q\<bar> \<le> 2 powi (- 14)" by auto
  then have err: "\<bar>r - q\<bar> \<le> 1 / 16384" by (simp add: power_int_minus_divide)
  have rpos: "0 \<le> r" using r(2) by (simp add: order_trans [of 0 "of_nat k" r])
  have "r \<le> q + 1 / 16384" using err by linarith
  then have "r < of_nat k + 1" using frac2 unfolding qeq by linarith
  then have "r < of_int (int k) + 1" by simp
  with r(2) have fl: "\<lfloor>r\<rfloor> = int k" by (simp add: floor_unique)
  have ce: "\<lceil>r\<rceil> = int ((n + d - 1) div d)"
  proof (cases "m = 0")
    case True
    then have "q = of_int (int k)" by (simp add: qeq f_def)
    with round_mag_between_ints [OF qpos q53, of "int k" "int k"] r(1)
    have "r = of_int (int k)" by auto
    moreover have "(n + d - 1) div d = k"
    proof (rule div_nat_eqI)
      show "d * k \<le> n + d - 1" using True d by (simp add: nkm)
      show "n + d - 1 < d * Suc k" using True d by (simp add: nkm)
    qed
    ultimately show ?thesis by simp
  next
    case False
    then have "(1::rat) \<le> of_nat m" by (simp add: Suc_leI flip: of_nat_Suc)
    then have "(1::rat) / of_nat d \<le> f" using dpos by (simp add: f_def field_simps)
    with small have "1 / 3600 \<le> f" by linarith
    moreover have "q - 1 / 16384 \<le> r" using err by linarith
    ultimately have "of_nat k < r" unfolding qeq by linarith
    then have "of_int (int k + 1) - 1 < r" by simp
    with r(3) have "\<lceil>r\<rceil> = int k + 1" by (simp add: ceiling_unique)
    moreover have "(n + d - 1) div d = k + 1"
    proof (rule div_nat_eqI)
      show "d * (k + 1) \<le> n + d - 1" using False d by (simp add: nkm)
      show "n + d - 1 < d * Suc (k + 1)" using md d by (simp add: nkm)
    qed
    ultimately show ?thesis by simp
  qed
  from r(1) rpos fl ce show ?thesis unfolding q_def k_def by blast
qed

lemma ilog2_ge: "0 < q \<Longrightarrow> 2 powi k \<le> q \<Longrightarrow> k \<le> ilog2 q"
proof (rule ccontr)
  assume q: "0 < q" "2 powi k \<le> q" and "\<not> k \<le> ilog2 q"
  then have "ilog2 q + 1 \<le> k" by simp
  then have "(2::rat) powi (ilog2 q + 1) \<le> 2 powi k" by (intro power_int_increasing) simp_all
  with ilog2_bounds [OF q(1)] q(2) show False by linarith
qed

lemma ulp_normal:
  assumes "1 / 2 \<le> q"
  shows "ulp q \<le> q / 2 ^ 52"
proof -
  have qpos: "0 < q" using assms by simp
  have "(2::rat) powi (- 1) \<le> q" using assms by simp
  with qpos have "- 1 \<le> ilog2 q" by (rule ilog2_ge)
  then have "max (ilog2 q) (- 1022) = ilog2 q" by simp
  then have "ulp q = 2 powi (ilog2 q - 52)" by (simp add: ulp_def)
  also have "\<dots> = 2 powi ilog2 q / 2 powi 52" by (rule power_int_diff) simp
  also have "\<dots> \<le> q / 2 powi 52" using ilog2_bounds [OF qpos] by (simp add: divide_right_mono)
  finally show ?thesis by simp
qed

lemma round_mag_Some_nearest: "round_mag q = Some r \<Longrightarrow> q \<noteq> 0 \<Longrightarrow> r = nearest q"
  by (simp add: round_mag_def split: if_splits)

section \<open>The percentage shown\<close>

lemma toFixed0_small:
  assumes "0 \<le> x" "x < 10 ^ 21"
  shows "toFixed e 0 (Finite Pos x) = decimal (nat (round x))"
  using assms by (simp add: minus_sign_def point_digits_def round_def)

lemma quotient_percent:
  assumes "0 \<le> c" "0 < t" "c \<le> 10 ^ 18 * t"
  shows "\<exists>x. js_times (js_divide (Finite Pos c) (Finite Pos t)) (Finite Pos 100) = Finite Pos x
           \<and> 0 \<le> x \<and> x < 10 ^ 21
           \<and> (c \<le> t \<longrightarrow> x \<le> 100 \<and> \<bar>x - 100 * c / t\<bar> \<le> 1 / 2 ^ 45)"
proof (cases "c = 0")
  case True
  then show ?thesis using assms(2)
    by (simp add: sign_mult_def to_double_Some [OF round_mag_zero])
next
  case False
  with assms(1) have cpos: "0 < c" by simp
  define q1 where "q1 = c / t"
  have q1pos: "0 < q1" using cpos assms(2) by (simp add: q1_def)
  have "q1 \<le> 10 ^ 18" using assms(2,3) by (simp add: q1_def field_simps)
  also have "(10::rat) ^ 18 \<le> 2 ^ 60" by simp
  finally have q1le: "q1 \<le> 2 ^ 60" .
  obtain r1 where r1: "round_mag q1 = Some r1" "0 \<le> r1" "r1 \<le> 2 ^ 60"
    using round_mag_le_pow2 [OF q1pos q1le] by auto
  have d: "js_divide (Finite Pos c) (Finite Pos t) = Finite Pos r1"
    using assms(2) by (simp add: sign_mult_def to_double_Some [OF r1(1) [unfolded q1_def]])
  have tight1: "c \<le> t \<longrightarrow> r1 \<le> 1 \<and> \<bar>r1 - q1\<bar> \<le> 1 / 2 ^ 53"
  proof
    assume "c \<le> t"
    then have le1: "q1 \<le> 1" using assms(2) by (simp add: q1_def)
    then have "q1 < 2 ^ 53" by simp
    from round_mag_between_ints [OF q1pos this, of 0 1] q1pos le1 r1(1)
    have a: "r1 \<le> 1" by auto
    have "q1 < 2 powi 1" using le1 by simp
    from round_mag_err [OF q1pos this] r1(1)
    have "\<bar>r1 - q1\<bar> \<le> 2 powi (- 53)" by auto
    then have "\<bar>r1 - q1\<bar> \<le> 1 / 2 ^ 53" by (simp add: power_int_minus_divide)
    with a show "r1 \<le> 1 \<and> \<bar>r1 - q1\<bar> \<le> 1 / 2 ^ 53" by simp
  qed
  show ?thesis
  proof (cases "r1 = 0")
    case True
    have m: "js_times (Finite Pos r1) (Finite Pos 100) = Finite Pos 0"
      by (simp add: True sign_mult_def to_double_Some [OF round_mag_zero])
    have "c \<le> t \<longrightarrow> \<bar>0 - 100 * c / t\<bar> \<le> 1 / 2 ^ 45"
    proof
      assume "c \<le> t"
      with tight1 True have "\<bar>q1\<bar> \<le> 1 / 2 ^ 53" by simp
      then have "100 * q1 \<le> 100 * (1 / 2 ^ 53)" using q1pos by simp
      also have "\<dots> \<le> 1 / 2 ^ 45" by simp
      finally show "\<bar>0 - 100 * c / t\<bar> \<le> 1 / 2 ^ 45" using q1pos by (simp add: q1_def)
    qed
    with d m show ?thesis by simp
  next
    case False
    define q2 where "q2 = r1 * 100"
    have q2pos: "0 < q2" using False r1(2) by (simp add: q2_def)
    have "q2 \<le> 2 ^ 60 * 100" using r1(3) by (simp add: q2_def)
    also have "\<dots> \<le> (2::rat) ^ 67" by simp
    finally have q2le: "q2 \<le> 2 ^ 67" .
    obtain r2 where r2: "round_mag q2 = Some r2" "0 \<le> r2" "r2 \<le> 2 ^ 67"
      using round_mag_le_pow2 [OF q2pos q2le] by auto
    have m: "js_times (Finite Pos r1) (Finite Pos 100) = Finite Pos r2"
      by (simp add: sign_mult_def to_double_Some [OF r2(1) [unfolded q2_def]])
    have small: "r2 < 10 ^ 21" using r2(3) by simp
    have "c \<le> t \<longrightarrow> r2 \<le> 100 \<and> \<bar>r2 - 100 * c / t\<bar> \<le> 1 / 2 ^ 45"
    proof
      assume ct: "c \<le> t"
      with tight1 have a: "r1 \<le> 1" and b: "\<bar>r1 - q1\<bar> \<le> 1 / 2 ^ 53" by simp_all
      have le100: "q2 \<le> 100" using a by (simp add: q2_def)
      then have "q2 < 2 ^ 53" by simp
      from round_mag_between_ints [OF q2pos this, of 0 100] q2pos le100 r2(1)
      have u: "r2 \<le> 100" by auto
      have "q2 < 2 powi 7" using le100 by simp
      from round_mag_err [OF q2pos this] r2(1)
      have "\<bar>r2 - q2\<bar> \<le> 2 powi (- 47)" by auto
      then have e2: "\<bar>r2 - q2\<bar> \<le> 1 / 2 ^ 47" by (simp add: power_int_minus_divide)
      have "r2 - 100 * q1 = (r2 - q2) + 100 * (r1 - q1)" by (simp add: q2_def)
      then have "\<bar>r2 - 100 * q1\<bar> \<le> \<bar>r2 - q2\<bar> + \<bar>100 * (r1 - q1)\<bar>"
        by (simp only: abs_triangle_ineq)
      also have "\<bar>100 * (r1 - q1)\<bar> = 100 * \<bar>r1 - q1\<bar>" by (simp only: abs_mult abs_numeral)
      also have "\<bar>r2 - q2\<bar> + 100 * \<bar>r1 - q1\<bar> \<le> 1 / 2 ^ 47 + 100 * (1 / 2 ^ 53)"
        by (intro add_mono mult_left_mono e2 b) simp
      also have "\<dots> \<le> 1 / 2 ^ 45" by simp
      finally have "\<bar>r2 - 100 * c / t\<bar> \<le> 1 / 2 ^ 45" by (simp add: q1_def)
      with u show "r2 \<le> 100 \<and> \<bar>r2 - 100 * c / t\<bar> \<le> 1 / 2 ^ 45" by simp
    qed
    with d m r2(2) small show ?thesis by simp
  qed
qed

lemma floor_rat_numeral: "\<lfloor>(numeral a :: rat) / numeral b\<rfloor> = numeral a div numeral b"
  by (metis floor_divide_of_int_eq of_int_numeral)

lemma round_mag_rel_err:
  assumes "1 / 2 \<le> q" "round_mag q = Some r"
  shows "\<bar>r - q\<bar> \<le> q / 2 ^ 53"
proof -
  have "q \<noteq> 0" using assms(1) by auto
  with assms(2) have r: "r = nearest q" by (rule round_mag_Some_nearest)
  have "\<bar>nearest q - q\<bar> \<le> ulp q / 2" by (rule nearest_err)
  also have "ulp q / 2 \<le> (q / 2 ^ 52) / 2" using ulp_normal [OF assms(1)] by simp
  also have "\<dots> = q / 2 ^ 53" by simp
  finally show ?thesis by (simp only: r)
qed

lemma round_near:
  fixes x q d :: rat
  assumes "\<bar>x - q\<bar> \<le> d" "d < \<bar>frac q - 1 / 2\<bar>"
  shows "round x = round q"
proof -
  define f where "f = \<lfloor>q\<rfloor>"
  define g where "g = frac q"
  have q: "q = of_int f + g" by (simp add: f_def g_def frac_def)
  have g: "0 \<le> g" "g < 1" by (simp_all add: g_def frac_lt_1)
  have x: "q - d \<le> x" "x \<le> q + d" using assms(1) by (simp_all add: abs_le_iff algebra_simps)
  have d: "0 \<le> d" using assms(1) by linarith
  show ?thesis
  proof (cases "g < 1 / 2")
    case True
    with assms(2) have dd: "d < 1 / 2 - g" by (simp add: g_def)
    have "\<lfloor>x + 1 / 2\<rfloor> = f" by (rule floor_unique) (use q g x dd d in linarith)+
    moreover have "\<lfloor>q + 1 / 2\<rfloor> = f" by (rule floor_unique) (use q g True in linarith)+
    ultimately show ?thesis by (simp add: round_def)
  next
    case False
    with assms(2) have dd: "d < g - 1 / 2" by (simp add: g_def)
    have c: "rat_of_int (f + 1) = of_int f + 1" by simp
    have "\<lfloor>x + 1 / 2\<rfloor> = f + 1"
      by (rule floor_unique; unfold c) (use q g x dd d in linarith)+
    moreover have "\<lfloor>q + 1 / 2\<rfloor> = f + 1"
      by (rule floor_unique; unfold c) (use q g False in linarith)+
    ultimately show ?thesis by (simp add: round_def)
  qed
qed

lemma quotient_percent_large:
  fixes c t :: rat
  assumes "0 < t" "t \<le> c" "c \<le> 10 ^ 18 * t"
  shows "\<exists>x. js_times (js_divide (Finite Pos c) (Finite Pos t)) (Finite Pos 100) = Finite Pos x
           \<and> \<bar>x - 100 * c / t\<bar> \<le> (100 * c / t) / 2 ^ 51"
proof -
  define q1 where "q1 = c / t"
  have q1ge: "1 \<le> q1" using assms(1,2) by (simp add: q1_def)
  then have q1pos: "0 < q1" by simp
  have "q1 \<le> 10 ^ 18" using assms(1,3) by (simp add: q1_def field_simps)
  also have "(10::rat) ^ 18 \<le> 2 ^ 60" by simp
  finally have q1le: "q1 \<le> 2 ^ 60" .
  obtain r1 where r1: "round_mag q1 = Some r1" "0 \<le> r1" "r1 \<le> 2 ^ 60"
    using round_mag_le_pow2 [OF q1pos q1le] by auto
  have d: "js_divide (Finite Pos c) (Finite Pos t) = Finite Pos r1"
    using assms(1) by (simp add: sign_mult_def to_double_Some [OF r1(1) [unfolded q1_def]])
  define u where "u = q1 / 2 ^ 53"
  have "1 / 2 \<le> q1" using q1ge by simp
  from round_mag_rel_err [OF this r1(1)] have e1: "\<bar>r1 - q1\<bar> \<le> u" by (simp only: u_def)
  have u: "0 \<le> u" "u \<le> q1 / 2" using q1pos by (simp_all add: u_def)
  have r1lo: "q1 / 2 \<le> r1" and r1hi: "r1 \<le> 2 * q1" using e1 u q1pos by linarith+
  define q2 where "q2 = r1 * 100"
  have q2half: "1 / 2 \<le> q2" using r1lo q1ge by (simp add: q2_def)
  then have q2pos: "0 < q2" by simp
  have "q2 \<le> 2 ^ 60 * 100" using r1(3) by (simp add: q2_def)
  also have "\<dots> \<le> (2::rat) ^ 67" by simp
  finally have q2le: "q2 \<le> 2 ^ 67" .
  obtain r2 where r2: "round_mag q2 = Some r2" "0 \<le> r2" "r2 \<le> 2 ^ 67"
    using round_mag_le_pow2 [OF q2pos q2le] by auto
  have m: "js_times (Finite Pos r1) (Finite Pos 100) = Finite Pos r2"
    by (simp add: sign_mult_def to_double_Some [OF r2(1) [unfolded q2_def]])
  have "\<bar>r2 - q2\<bar> \<le> q2 / 2 ^ 53" using q2half r2(1) by (rule round_mag_rel_err)
  also have "q2 / 2 ^ 53 \<le> (200 * q1) / 2 ^ 53"
    using r1hi by (simp add: q2_def)
  also have "\<dots> = 200 * u" by (simp add: u_def)
  finally have e2: "\<bar>r2 - q2\<bar> \<le> 200 * u" .
  have "r2 - 100 * q1 = (r2 - q2) + 100 * (r1 - q1)" by (simp add: q2_def)
  then have "\<bar>r2 - 100 * q1\<bar> \<le> \<bar>r2 - q2\<bar> + \<bar>100 * (r1 - q1)\<bar>"
    by (simp only: abs_triangle_ineq)
  also have "\<bar>100 * (r1 - q1)\<bar> = 100 * \<bar>r1 - q1\<bar>" by (simp only: abs_mult abs_numeral)
  also have "\<bar>r2 - q2\<bar> + 100 * \<bar>r1 - q1\<bar> \<le> 200 * u + 100 * u"
    by (intro add_mono mult_left_mono e2 e1) simp
  also have "\<dots> \<le> 400 * u" using u(1) by simp
  also have "\<dots> = (100 * q1) / 2 ^ 51" by (simp add: u_def)
  finally have "\<bar>r2 - 100 * c / t\<bar> \<le> (100 * c / t) / 2 ^ 51" by (simp add: q1_def)
  with d m show ?thesis by simp
qed

lemma percent_within_tolerance:
  fixes c t :: rat
  assumes "0 \<le> c" "0 < t" "c \<le> 10 ^ 18 * t"
  shows "\<exists>x. js_times (js_divide (Finite Pos c) (Finite Pos t)) (Finite Pos 100) = Finite Pos x
           \<and> 0 \<le> x \<and> x < 10 ^ 21 \<and> (c \<le> t \<longrightarrow> x \<le> 100)
           \<and> \<bar>x - 100 * c / t\<bar> \<le> tolerance (100 * c / t)"
proof -
  obtain x where x: "js_times (js_divide (Finite Pos c) (Finite Pos t)) (Finite Pos 100) = Finite Pos x"
    "0 \<le> x" "x < 10 ^ 21" "c \<le> t \<longrightarrow> x \<le> 100 \<and> \<bar>x - 100 * c / t\<bar> \<le> 1 / 2 ^ 45"
    using quotient_percent [OF assms] by blast
  have iff: "100 * c / t \<le> 100 \<longleftrightarrow> c \<le> t" using assms(2) by (simp add: field_simps)
  have "\<bar>x - 100 * c / t\<bar> \<le> tolerance (100 * c / t)"
  proof (cases "c \<le> t")
    case True
    with x(4) iff show ?thesis by (simp add: tolerance_def)
  next
    case False
    then have "t \<le> c" by simp
    from quotient_percent_large [OF assms(2) this assms(3)]
    obtain y where y: "js_times (js_divide (Finite Pos c) (Finite Pos t)) (Finite Pos 100) = Finite Pos y"
      "\<bar>y - 100 * c / t\<bar> \<le> (100 * c / t) / 2 ^ 51" by blast
    from x(1) y(1) have "y = x" by simp
    with y(2) False iff show ?thesis by (simp add: tolerance_def)
  qed
  with x show ?thesis by blast
qed

lemma percentage_text:
  fixes c t :: rat
  assumes "0 \<le> c" "0 < t" "c \<le> 10 ^ 18 * t"
  shows "\<exists>n. info_innerHTML (updateProgressBar e (Finite Pos c) (Finite Pos t) text p)
               = text @ '' '' @ decimal n @ ''%''
           \<and> \<bar>of_nat n - 100 * c / t\<bar> \<le> 1 / 2 + tolerance (100 * c / t)
           \<and> (tolerance (100 * c / t) < \<bar>frac (100 * c / t) - 1 / 2\<bar> \<longrightarrow> int n = round (100 * c / t))
           \<and> (c \<le> t \<longrightarrow> n \<le> 100)"
proof -
  obtain x where x: "js_times (js_divide (Finite Pos c) (Finite Pos t)) (Finite Pos 100) = Finite Pos x"
    "0 \<le> x" "x < 10 ^ 21" "c \<le> t \<longrightarrow> x \<le> 100"
    "\<bar>x - 100 * c / t\<bar> \<le> tolerance (100 * c / t)"
    using percent_within_tolerance [OF assms] by blast
  define n where "n = nat (round x)"
  have rpos: "0 \<le> round x" using x(2) by (simp add: round_def)
  then have n: "int n = round x" by (simp add: n_def)
  then have nr: "(of_nat n :: rat) = of_int (round x)" by (metis of_int_of_nat_eq)
  have a: "info_innerHTML (updateProgressBar e (Finite Pos c) (Finite Pos t) text p)
               = text @ '' '' @ decimal n @ ''%''"
    unfolding n_def by (simp only: updateProgressBar_def x(1) toFixed0_small [OF x(2,3)]) simp
  have "\<bar>of_int (round x) - x\<bar> \<le> 1 / 2" by (rule of_int_round_abs_le)
  then have b: "\<bar>of_nat n - 100 * c / t\<bar> \<le> 1 / 2 + tolerance (100 * c / t)"
    unfolding nr using x(5) by linarith
  have c: "tolerance (100 * c / t) < \<bar>frac (100 * c / t) - 1 / 2\<bar> \<longrightarrow> int n = round (100 * c / t)"
    unfolding n using round_near [OF x(5)] by blast
  have d: "c \<le> t \<longrightarrow> n \<le> 100"
  proof
    assume "c \<le> t"
    with x(4) have "x \<le> 100" by simp
    then have "round x \<le> 100" unfolding round_def by (simp add: floor_le_iff)
    with n show "n \<le> 100" by linarith
  qed
  show ?thesis by (rule exI [of _ n]) (intro conjI a b c d)
qed

text \<open>
  For whole counts with a total below \<open>2 ^ 44\<close>, the exact percentage is either halfway
  between two integers or farther than the tolerance from it: off the halves the text
  shown is the rounded exact percentage.
\<close>

lemma frac_whole_counts:
  fixes a b :: nat
  assumes "0 < b"
  shows "frac (of_nat a / of_nat b :: rat) = of_nat (a mod b) / of_nat b"
proof -
  have "\<lfloor>of_nat a / of_nat b :: rat\<rfloor> = int (a div b)" by (simp add: floor_divide_of_nat_eq)
  then have "frac (of_nat a / of_nat b :: rat) = of_nat a / of_nat b - of_nat (a div b)"
    by (simp add: frac_def)
  also have "\<dots> = of_nat (a mod b) / of_nat b"
  proof -
    have "(of_nat a :: rat) = of_nat b * of_nat (a div b) + of_nat (a mod b)"
      by (metis mult_div_mod_eq of_nat_add of_nat_mult)
    then have "(of_nat a :: rat) / of_nat b = (of_nat b * of_nat (a div b) + of_nat (a mod b)) / of_nat b"
      by (simp only:)
    also have "\<dots> = of_nat (a div b) + of_nat (a mod b) / of_nat b"
      using assms by (simp add: add_divide_distrib)
    finally show ?thesis by simp
  qed
  finally show ?thesis .
qed

lemma whole_counts_off_tie:
  fixes a b :: nat
  assumes "0 < b" "b < 2 ^ 44" "2 * (a mod b) \<noteq> b"
  shows "1 / 2 ^ 45 < \<bar>frac (of_nat a / of_nat b :: rat) - 1 / 2\<bar>"
proof -
  define m where "m = a mod b"
  have bpos: "(0::rat) < of_nat b" using assms(1) by simp
  have "int (2 * m) \<noteq> int b" using assms(3) unfolding m_def by (simp only: of_nat_eq_iff) simp
  then have "1 \<le> \<bar>2 * int m - int b\<bar>" by simp
  then have "(1::rat) \<le> of_int \<bar>2 * int m - int b\<bar>" by (simp only: of_int_1_le_iff)
  then have one: "(1::rat) \<le> \<bar>2 * of_nat m - of_nat b\<bar>" by simp
  have "(of_nat b :: rat) < of_nat (2 ^ 44)" using assms(2) by (simp only: of_nat_less_iff)
  then have b44: "(of_nat b :: rat) < 2 ^ 44" by simp
  have "frac (of_nat a / of_nat b :: rat) - 1 / 2 = (2 * of_nat m - of_nat b) / (2 * of_nat b)"
    using bpos by (simp add: frac_whole_counts [OF assms(1)] m_def field_simps)
  then have "\<bar>frac (of_nat a / of_nat b :: rat) - 1 / 2\<bar> = \<bar>2 * of_nat m - of_nat b\<bar> / (2 * of_nat b)"
    using bpos by (simp add: abs_divide)
  also have "\<dots> \<ge> 1 / (2 * of_nat b)" using one bpos by (simp add: divide_right_mono)
  also (xtrans) have "1 / (2 * of_nat b) > (1::rat) / 2 ^ 45"
    using bpos b44 by (simp add: field_simps)
  finally (xtrans) show ?thesis .
qed

lemma whole_counts_percentage:
  fixes a b :: nat
  assumes "0 < b" "a \<le> b" "b < 2 ^ 44" "2 * ((100 * a) mod b) \<noteq> b"
  shows "info_innerHTML (updateProgressBar e (Finite Pos (of_nat a)) (Finite Pos (of_nat b)) text p)
           = text @ '' '' @ decimal (nat (round (100 * of_nat a / of_nat b :: rat))) @ ''%''"
proof -
  have h: "(0::rat) \<le> of_nat a" "(0::rat) < of_nat b" "(of_nat a :: rat) \<le> 10 ^ 18 * of_nat b"
  proof -
    show "(0::rat) \<le> of_nat a" by simp
    show "(0::rat) < of_nat b" using assms(1) by simp
    have "(of_nat a :: rat) \<le> of_nat b" using assms(2) by (simp only: of_nat_le_iff)
    also have "\<dots> \<le> 10 ^ 18 * of_nat b" by simp
    finally show "(of_nat a :: rat) \<le> 10 ^ 18 * of_nat b" .
  qed
  define q :: rat where "q = 100 * of_nat a / of_nat b"
  have q: "q = of_nat (100 * a) / of_nat b" by (simp add: q_def)
  have "(of_nat a :: rat) \<le> of_nat b" using assms(2) by (simp only: of_nat_le_iff)
  then have "q \<le> 100" using h(2) by (simp add: q_def field_simps)
  then have tol: "tolerance q = 1 / 2 ^ 45" by (simp add: tolerance_def)
  have "1 / 2 ^ 45 < \<bar>frac (of_nat (100 * a) / of_nat b :: rat) - 1 / 2\<bar>"
    by (rule whole_counts_off_tie [OF assms(1,3,4)])
  then have off: "tolerance q < \<bar>frac q - 1 / 2\<bar>"
    by (simp only: tol q [symmetric])
  from percentage_text [OF h, of e "text" p]
  obtain n where n: "info_innerHTML (updateProgressBar e (Finite Pos (of_nat a)) (Finite Pos (of_nat b)) text p)
               = text @ '' '' @ decimal n @ ''%''"
     "tolerance q < \<bar>frac q - 1 / 2\<bar> \<longrightarrow> int n = round q"
    unfolding q_def by blast
  from n(2) off have "n = nat (round q)" by simp
  with n(1) show ?thesis by (simp only: q_def)
qed






section \<open>The duration of the estimate\<close>

lemma decimal_0: "decimal 0 = ''0''"
  by (simp add: decimal.simps)

lemma number_to_string_nat:
  assumes "k < 2 ^ 53"
  shows "number_to_string e (Finite Pos (of_nat k)) = decimal k"
proof (cases "k = 0")
  case True
  then show ?thesis by (simp add: decimal_0)
next
  case False
  have "(of_nat k :: rat) < of_nat (2 ^ 53)" using assms by (simp only: of_nat_less_iff)
  then have "(of_nat k :: rat) < 2 ^ 53" by simp
  with False show ?thesis by (simp add: minus_sign_def)
qed

lemma number_to_string_neg:
  assumes "0 < k" "k < 2 ^ 53"
  shows "number_to_string e (Finite Neg (of_nat k)) = ''-'' @ decimal k"
proof -
  have "(of_nat k :: rat) < of_nat (2 ^ 53)" using assms(2) by (simp only: of_nat_less_iff)
  then have "(of_nat k :: rat) < 2 ^ 53" by simp
  with assms(1) show ?thesis by (simp add: minus_sign_def)
qed

lemma js_times_nat:
  assumes "a * b < 2 ^ 53"
  shows "js_times (Finite s (of_nat a)) (Finite Pos (of_nat b)) = Finite s (of_nat (a * b))"
proof -
  have "round_mag (of_nat a * of_nat b) = Some (of_nat (a * b))"
    using round_mag_of_nat [OF assms] by simp
  then show ?thesis by (cases s) (simp_all add: to_double_Some sign_mult_def)
qed

lemma js_minus_nat:
  assumes "b \<le> a" "a < 2 ^ 53"
  shows "js_minus (Finite Pos (of_nat a)) (Finite Pos (of_nat b)) = Finite Pos (of_nat (a - b))"
proof (cases "a = b")
  case True
  then show ?thesis by (simp add: js_minus_def sign_mult_def signed_def)
next
  case False
  with assms(1) have lt: "b < a" by simp
  have "a - b < 2 ^ 53" using assms(2) by simp
  from round_mag_of_nat [OF this] have r: "round_mag (of_nat (a - b)) = Some (of_nat (a - b))" .
  have "js_minus (Finite Pos (of_nat a)) (Finite Pos (of_nat b))
          = to_double Pos (of_nat a - of_nat b)"
    using lt by (simp add: js_minus_def sign_mult_def signed_def Let_def)
  also have "(of_nat a :: rat) - of_nat b = of_nat (a - b)"
    using assms(1) by (simp only: of_nat_diff)
  finally show ?thesis by (simp only: to_double_Some [OF r])
qed

lemma js_minus_neg_nat:
  assumes "a \<le> b" "b < 2 ^ 53"
  shows "js_minus (Finite Neg (of_nat a)) (Finite Neg (of_nat b)) = Finite Pos (of_nat (b - a))"
proof (cases "a = b")
  case True
  then show ?thesis by (simp add: js_minus_def sign_mult_def signed_def)
next
  case False
  with assms(1) have lt: "a < b" by simp
  have "b - a < 2 ^ 53" using assms(2) by simp
  from round_mag_of_nat [OF this] have r: "round_mag (of_nat (b - a)) = Some (of_nat (b - a))" .
  have "js_minus (Finite Neg (of_nat a)) (Finite Neg (of_nat b))
          = to_double Pos (of_nat b - of_nat a)"
    using lt by (simp add: js_minus_def sign_mult_def signed_def Let_def)
  also have "(of_nat b :: rat) - of_nat a = of_nat (b - a)"
    using assms(1) by (simp only: of_nat_diff)
  finally show ?thesis by (simp only: to_double_Some [OF r])
qed

lemma floor_quotient:
  fixes n d :: nat
  assumes "0 < d" "d \<le> 3600" "n < d * 2 ^ 40"
  shows "Math_floor (js_divide (Finite Pos (of_nat n)) (Finite Pos (of_nat d))) = Finite Pos (of_nat (n div d))"
proof -
  obtain r where r: "round_mag (of_nat n / of_nat d) = Some r" "\<lfloor>r\<rfloor> = int (n div d)"
    using round_mag_quotient [OF assms] by blast
  show ?thesis using assms(1) by (simp add: sign_mult_def to_double_Some [OF r(1)] r(2))
qed

lemma floor_quotient_neg:
  fixes n d :: nat
  assumes "0 < d" "d \<le> 3600" "n < d * 2 ^ 40"
  shows "Math_floor (js_divide (Finite Neg (of_nat n)) (Finite Pos (of_nat d)))
           = Finite Neg (of_nat ((n + d - 1) div d))"
proof -
  obtain r where r: "round_mag (of_nat n / of_nat d) = Some r" "\<lceil>r\<rceil> = int ((n + d - 1) div d)"
    using round_mag_quotient [OF assms] by blast
  show ?thesis using assms(1) by (simp add: sign_mult_def to_double_Some [OF r(1)] r(2))
qed

lemma Math_floor_nat: "Math_floor (Finite Pos (of_nat k)) = Finite Pos (of_nat k)"
  by simp

text \<open>The minutes and seconds of a remainder below an hour.\<close>

lemma remainder_minutes:
  assumes "R < 3600"
  shows "Math_floor (js_divide (Finite Pos (of_nat R)) (Finite Pos 60)) = Finite Pos (of_nat (R div 60))"
proof -
  have "R < 60 * 2 ^ 40" using assms by simp
  from floor_quotient [of 60 R, OF _ _ this] show ?thesis by simp
qed

lemma remainder_seconds:
  assumes "R < 3600"
  shows "Math_floor (js_minus (Finite Pos (of_nat R)) (js_times (Finite Pos (of_nat (R div 60))) (Finite Pos 60)))
           = Finite Pos (of_nat (R mod 60))"
proof -
  have "R div 60 * 60 < 2 ^ 53" using assms by simp
  from js_times_nat [of "R div 60" 60 Pos, OF this]
  have t: "js_times (Finite Pos (of_nat (R div 60))) (Finite Pos 60) = Finite Pos (of_nat (R div 60 * 60))"
    by simp
  have "R < 2 ^ 53" using assms by simp
  from js_minus_nat [of "R div 60 * 60" R, OF _ this]
  have m: "js_minus (Finite Pos (of_nat R)) (Finite Pos (of_nat (R div 60 * 60))) = Finite Pos (of_nat (R - R div 60 * 60))"
    by simp
  have "R - R div 60 * 60 = R mod 60" by (simp add: minus_div_mult_eq_mod)
  then show ?thesis by (simp only: t m Math_floor_nat)
qed

lemma formatTime_remainder:
  assumes h: "Math_floor (js_divide time (Finite Pos 3600)) = hours"
    and r: "js_minus time (js_times hours (Finite Pos 3600)) = Finite Pos (of_nat R)"
    and R: "R < 3600"
  shows "formatTime e time = number_to_string e hours @ ''h '' @ decimal (R div 60) @ ''m ''
           @ decimal (R mod 60) @ ''s''"
proof -
  have a: "R div 60 < 2 ^ 53" "R mod 60 < 2 ^ 53" using R by simp_all
  show ?thesis
    unfolding formatTime_def Let_def h r remainder_minutes [OF R] remainder_seconds [OF R]
      number_to_string_nat [OF a(1)] number_to_string_nat [OF a(2)] ..
qed

lemma formatTime_neg_nat:
  assumes "0 < m" "m < 2 ^ 51"
  shows "formatTime e (Finite Neg (of_nat m))
           = ''-'' @ decimal ((m + 3599) div 3600) @ ''h ''
             @ decimal ((3600 * ((m + 3599) div 3600) - m) div 60) @ ''m ''
             @ decimal ((3600 * ((m + 3599) div 3600) - m) mod 60) @ ''s''"
proof -
  define K where "K = (m + 3599) div 3600"
  have Kpos: "0 < K" using assms(1) by (simp add: K_def)
  define md where "md = (m + 3599) mod 3600"
  have e: "3600 * K + md = m + 3599" unfolding K_def md_def by (rule mult_div_mod_eq)
  have mdb: "md < 3600" unfolding md_def by simp
  have lo: "m \<le> 3600 * K" using e mdb by linarith
  have hi: "3600 * K - m < 3600" using e mdb by linarith
  have "m + 3600 < 2 ^ 53" using assms(2) by simp
  then have Kb: "K * 3600 < 2 ^ 53" using e by linarith
  have "m < 3600 * 2 ^ 40" using assms(2) by simp
  from floor_quotient_neg [of 3600 m, OF _ _ this]
  have h: "Math_floor (js_divide (Finite Neg (of_nat m)) (Finite Pos 3600)) = Finite Neg (of_nat K)"
    by (simp add: K_def)
  from js_times_nat [of K 3600 Neg, OF Kb]
  have t: "js_times (Finite Neg (of_nat K)) (Finite Pos 3600) = Finite Neg (of_nat (K * 3600))"
    by simp
  have "m \<le> K * 3600" using lo by (simp add: mult.commute)
  from js_minus_neg_nat [OF this Kb]
  have r: "js_minus (Finite Neg (of_nat m)) (js_times (Finite Neg (of_nat K)) (Finite Pos 3600))
          = Finite Pos (of_nat (3600 * K - m))" by (simp only: t mult.commute)
  have k: "K < 2 ^ 53" using Kb by simp
  have "formatTime e (Finite Neg (of_nat m))
          = (''-'' @ decimal K) @ ''h '' @ decimal ((3600 * K - m) div 60) @ ''m ''
             @ decimal ((3600 * K - m) mod 60) @ ''s''"
    using formatTime_remainder [OF h r hi, of e] unfolding number_to_string_neg [OF Kpos k] .
  then show ?thesis unfolding K_def by simp
qed

lemma negative_parts:
  fixes n :: int
  assumes "n < 0"
  shows "(nat (- n) + 3599) div 3600 = nat (- (n div 3600))"
    and "3600 * nat (- (n div 3600)) - nat (- n) = nat (n mod 3600)"
proof -
  define dq where "dq = n div 3600"
  define rm where "rm = n mod 3600"
  have n: "n = 3600 * dq + rm" by (simp add: dq_def rm_def)
  have rm: "0 \<le> rm" "rm < 3600" by (simp_all add: rm_def)
  have dq: "dq < 0" using assms n rm by linarith
  have a: "- n + 3599 = 3600 * (- dq) + (3599 - rm)" using n by simp
  have "(- n + 3599) div 3600 = - dq"
    using a by (rule int_div_pos_eq) (use rm in simp_all)
  moreover have "int ((nat (- n) + 3599) div 3600) = (- n + 3599) div 3600"
    using assms by (simp add: zdiv_int)
  ultimately have K: "int ((nat (- n) + 3599) div 3600) = - dq" by simp
  then show "(nat (- n) + 3599) div 3600 = nat (- (n div 3600))"
    unfolding dq_def by linarith
  have "int (3600 * nat (- dq)) = 3600 * (- dq)"
    using dq by simp
  moreover have "int (nat (- n)) = - n" using assms by simp
  ultimately have "int (3600 * nat (- dq)) - int (nat (- n)) = rm"
    using n by linarith
  then show "3600 * nat (- (n div 3600)) - nat (- n) = nat (n mod 3600)"
    unfolding rm_def dq_def by linarith
qed

text \<open>
  The values a Number can hold are the fixed points of \<open>round_mag\<close>. For such a value
  \<open>x\<close> below \<open>2 ^ 53\<close> the grid of the values near \<open>x\<close> contains the whole numbers, so that
  the quotient by a whole number, rounded to the nearest value, has the floor of the exact
  quotient, and the difference with a whole number below \<open>x\<close> is exact.
\<close>

lemma floor_divide_nat:
  fixes x :: rat
  assumes "0 < d" "0 \<le> x"
  shows "\<lfloor>x / of_nat d\<rfloor> = \<lfloor>x\<rfloor> div int d"
proof (rule floor_unique)
  define N where "N = \<lfloor>x\<rfloor>"
  define k where "k = N div int d"
  define m where "m = N mod int d"
  have N: "N = int d * k + m" by (simp add: k_def m_def)
  have m: "0 \<le> m" "m < int d" using assms(1) by (simp_all add: m_def)
  have dpos: "(0::rat) < of_nat d" using assms(1) by simp
  have lo: "of_int N \<le> x" and hi: "x < of_int N + 1" unfolding N_def by linarith+
  have "int d * k \<le> N" using m(1) by (simp add: N)
  then have "(of_int (int d * k) :: rat) \<le> of_int N" by (simp only: of_int_le_iff)
  then have "of_nat d * of_int k \<le> x" using lo by simp
  then show "of_int (\<lfloor>x\<rfloor> div int d) \<le> x / of_nat d"
    using dpos by (simp add: field_simps k_def N_def)
  have "N + 1 \<le> int d * k + int d" using m(2) by (simp add: N)
  then have "(of_int (N + 1) :: rat) \<le> of_int (int d * k + int d)" by (simp only: of_int_le_iff)
  then have "x < of_nat d * of_int k + of_nat d" using hi by simp
  then show "x / of_nat d < of_int (\<lfloor>x\<rfloor> div int d) + 1"
    using dpos by (simp add: field_simps k_def N_def)
qed

lemma below_two_pow_53_ulps:
  assumes "0 < x"
  shows "x < 2 ^ 53 * ulp x"
proof -
  have "(2::rat) powi (ilog2 x - 52) \<le> ulp x"
    unfolding ulp_def by (intro power_int_increasing) simp_all
  then have "2 ^ 53 * 2 powi (ilog2 x - 52) \<le> 2 ^ 53 * ulp x" by simp
  moreover have "(2::rat) ^ 53 * 2 powi (ilog2 x - 52) = 2 powi (ilog2 x + 1)"
  proof -
    have "(2::rat) ^ 53 * 2 powi (ilog2 x - 52) = 2 powi 53 * 2 powi (ilog2 x - 52)" by simp
    also have "\<dots> = 2 powi (53 + (ilog2 x - 52))" by (rule power_int_add [symmetric]) simp
    also have "53 + (ilog2 x - 52) = ilog2 x + 1" by simp
    finally show ?thesis .
  qed
  ultimately show ?thesis using ilog2_bounds [OF assms] by linarith
qed

lemma fixpoint_multiple:
  assumes "0 < x" "round_mag x = Some x"
  shows "\<exists>m::int. x = of_int m * ulp x"
proof -
  have "nearest x = x" using assms by (simp add: round_mag_def split: if_splits)
  then have "x = of_int (round_half_even (x / ulp x)) * ulp x" by (simp add: nearest_def)
  then show ?thesis ..
qed

lemma one_multiple:
  assumes "0 < x" "x < 2 ^ 53"
  shows "\<exists>n::int. 1 = of_int n * ulp x"
  using grid_multiple [of x 0] exponent_int [OF assms] by simp

lemma ilog2_mono: "0 < v \<Longrightarrow> v \<le> x \<Longrightarrow> ilog2 v \<le> ilog2 x"
proof -
  assume v: "0 < v" "v \<le> x"
  then have "0 < x" by simp
  from ilog2_bounds [OF this] v(2) have "v < 2 powi (ilog2 x + 1)" by simp
  with v(1) have "ilog2 v < ilog2 x + 1" by (rule ilog2_less)
  then show ?thesis by simp
qed

lemma multiple_representable:
  assumes "0 < v" "v \<le> x" "x < 2 ^ 53" "v = of_int n * ulp x"
  shows "round_mag v = Some v"
proof -
  have ex: "max (ilog2 v) (- 1022) - 52 \<le> max (ilog2 x) (- 1022) - 52"
    using ilog2_mono [OF assms(1,2)] by simp
  have g: "v = of_int n * 2 powi (max (ilog2 x) (- 1022) - 52)" using assms(4) by (simp add: ulp_def)
  have "v \<le> of_int n * 2 powi (max (ilog2 x) (- 1022) - 52)" using g by simp
  from nearest_le_grid [OF assms(1) this ex] have le: "nearest v \<le> v" using g by simp
  have "of_int n * 2 powi (max (ilog2 x) (- 1022) - 52) \<le> v" using g by simp
  from nearest_ge_grid [OF assms(1) this ex] have ge: "v \<le> nearest v" using g by simp
  from le ge have "nearest v = v" by simp
  moreover have "v < 2 ^ 1024" using assms(2,3) by simp
  ultimately show ?thesis using assms(1) by (simp add: round_mag_def)
qed

lemma floor_of_quotient:
  fixes x :: rat and d :: nat
  assumes x: "0 \<le> x" "x < 2 ^ 53" "round_mag x = Some x" and d: "0 < d"
  shows "\<exists>r. round_mag (x / of_nat d) = Some r \<and> 0 \<le> r \<and> \<lfloor>r\<rfloor> = \<lfloor>x / of_nat d\<rfloor>"
proof (cases "x = 0")
  case True
  then show ?thesis by (simp add: round_mag_zero)
next
  case False
  with x(1) have xpos: "0 < x" by simp
  define q where "q = x / of_nat d"
  define K where "K = \<lfloor>q\<rfloor>"
  have dpos: "(0::rat) < of_nat d" using d by simp
  have d1: "(1::rat) \<le> of_nat d" using d by (simp add: Suc_leI flip: of_nat_Suc)
  have qpos: "0 < q" using xpos dpos by (simp add: q_def)
  have "q \<le> x" using xpos d1 dpos by (simp add: q_def field_simps)
  then have q53: "q < 2 ^ 53" using x(2) by simp
  have lo: "of_int K \<le> q" and hi: "q < of_int K + 1" unfolding K_def by linarith+
  have hi': "q \<le> of_int (K + 1)" using hi by simp
  obtain r where r: "round_mag q = Some r" "of_int K \<le> r" "r \<le> of_int (K + 1)"
    using round_mag_between_ints [OF qpos q53 lo hi'] by blast
  have rn: "r = nearest q" using r(1) qpos by (intro round_mag_Some_nearest) simp_all
  have K0: "0 \<le> K" using qpos by (simp add: K_def)
  have rpos: "0 \<le> r" using r(2) K0 by (simp add: order_trans [of 0 "of_int K" r])
  have strict: "r < of_int K + 1"
  proof (cases "q < 1 / 2")
    case True
    have "K = 0" unfolding K_def using qpos True by (intro floor_unique) simp_all
    have "q < 2 powi (- 1)" using True by simp
    with qpos have "ilog2 q < - 1" by (rule ilog2_less)
    then have ex: "max (ilog2 q) (- 1022) - 52 \<le> - 1" by simp
    have "q \<le> of_int 1 * 2 powi (- 1)" using True by simp
    from nearest_le_grid [OF qpos this ex] have "r \<le> 1 / 2" by (simp add: rn)
    then show ?thesis using \<open>K = 0\<close> by simp
  next
    case False
    then have half: "1 / 2 \<le> q" by simp
    define u where "u = ulp x"
    have upos: "0 < u" by (simp add: u_def ulp_pos)
    obtain m :: int where m: "x = of_int m * u"
      using fixpoint_multiple [OF xpos x(3)] by (auto simp add: u_def)
    obtain n1 :: int where n1: "1 = of_int n1 * u"
      using one_multiple [OF xpos x(2)] by (auto simp add: u_def)
    define c where "c = (K + 1) * int d * n1 - m"
    have "of_int ((K + 1) * int d) = of_int ((K + 1) * int d) * (of_int n1 * u)"
      using n1 by simp
    then have diff: "of_int (K + 1) * of_nat d - x = of_int c * u"
      by (simp add: c_def m left_diff_distrib mult.assoc)
    have "x < of_int (K + 1) * of_nat d" using hi dpos by (simp add: q_def field_simps)
    then have "0 < of_int c * u" using diff by simp
    then have "(0::rat) < of_int c" using upos by (simp add: zero_less_mult_iff)
    then have "1 \<le> c" by simp
    then have "(1::rat) \<le> of_int c" by simp
    then have "u \<le> of_int c * u" using upos by simp
    then have "u \<le> of_int (K + 1) * of_nat d - x" using diff by simp
    then have "x + u \<le> of_int (K + 1) * of_nat d" by simp
    then have gap: "q + u / of_nat d \<le> of_int K + 1"
      using dpos by (simp add: q_def field_simps)
    have "x < 2 ^ 53 * u" unfolding u_def using xpos by (rule below_two_pow_53_ulps)
    then have "x / 2 ^ 53 < u" by (simp add: field_simps)
    then have "x / 2 ^ 53 / of_nat d < u / of_nat d"
      using dpos by (rule divide_strict_right_mono)
    moreover have "q / 2 ^ 52 / 2 = x / 2 ^ 53 / of_nat d" by (simp add: q_def)
    moreover have "ulp q / 2 \<le> q / 2 ^ 52 / 2" using ulp_normal [OF half] by simp
    ultimately have "ulp q / 2 < u / of_nat d" by linarith
    moreover have "\<bar>r - q\<bar> \<le> ulp q / 2" unfolding rn by (rule nearest_err)
    ultimately have "r < q + u / of_nat d" by linarith
    with gap show ?thesis by linarith
  qed
  with r(2) have "\<lfloor>r\<rfloor> = K" by (simp add: floor_unique)
  with r(1) rpos show ?thesis unfolding K_def q_def by blast
qed

lemma js_minus_exact:
  fixes x :: rat and b :: nat
  assumes x: "0 \<le> x" "x < 2 ^ 53" "round_mag x = Some x" and b: "of_nat b \<le> x"
  shows "js_minus (Finite Pos x) (Finite Pos (of_nat b)) = Finite Pos (x - of_nat b)"
    and "round_mag (x - of_nat b) = Some (x - of_nat b)"
proof -
  define v where "v = x - of_nat b"
  have vle: "v \<le> x" by (simp add: v_def)
  have r: "round_mag v = Some v"
  proof (cases "v = 0")
    case True
    then show ?thesis by (simp add: round_mag_zero)
  next
    case False
    then have vpos: "0 < v" using b by (simp add: v_def)
    then have xpos: "0 < x" using vle by simp
    obtain m :: int where m: "x = of_int m * ulp x"
      using fixpoint_multiple [OF xpos x(3)] by blast
    obtain n1 :: int where n1: "1 = of_int n1 * ulp x"
      using one_multiple [OF xpos x(2)] by blast
    have "of_nat b = of_int (int b) * (of_int n1 * ulp x)" using n1 by simp
    then have "v = of_int (m - int b * n1) * ulp x"
      using m by (simp add: v_def left_diff_distrib mult.assoc)
    with vpos vle x(2) show ?thesis by (rule multiple_representable)
  qed
  then show "round_mag (x - of_nat b) = Some (x - of_nat b)" by (simp add: v_def)
  show "js_minus (Finite Pos x) (Finite Pos (of_nat b)) = Finite Pos (x - of_nat b)"
  proof (cases "v = 0")
    case True
    then show ?thesis by (simp add: js_minus_def sign_mult_def signed_def v_def)
  next
    case False
    then have vpos: "0 < v" using b by (simp add: v_def)
    have "js_minus (Finite Pos x) (Finite Pos (of_nat b)) = to_double Pos v"
      using vpos by (simp add: js_minus_def sign_mult_def signed_def Let_def v_def)
    also have "to_double Pos v = Finite Pos v" by (rule to_double_Some [OF r])
    finally show ?thesis by (simp only: v_def)
  qed
qed

lemma round_mag_dyadic:
  assumes "M < 2 ^ 53" "k \<le> 1074"
  shows "round_mag (of_nat M / 2 ^ k) = Some (of_nat M / 2 ^ k)"
proof (cases "M = 0")
  case True
  then show ?thesis by (simp add: round_mag_zero)
next
  case False
  define q :: rat where "q = of_nat M / 2 ^ k"
  have qpos: "0 < q" using False by (simp add: q_def)
  have g: "q = of_int (int M) * 2 powi (- int k)"
    by (simp add: q_def power_int_minus_divide)
  have "(of_nat M :: rat) < of_nat (2 ^ 53)" using assms(1) by (simp only: of_nat_less_iff)
  then have "q < 2 ^ 53 / 2 ^ k" by (simp add: q_def divide_strict_right_mono)
  also have "(2::rat) ^ 53 / 2 ^ k = 2 powi (53 - int k)"
    by (simp add: power_int_diff)
  finally have "ilog2 q < 53 - int k" using qpos by (intro ilog2_less)
  then have ex: "max (ilog2 q) (- 1022) - 52 \<le> - int k" using assms(2) by simp
  have "q \<le> of_int (int M) * 2 powi (- int k)" using g by simp
  from nearest_le_grid [OF qpos this ex] have le: "nearest q \<le> q" using g by simp
  have "of_int (int M) * 2 powi (- int k) \<le> q" using g by simp
  from nearest_ge_grid [OF qpos this ex] have ge: "q \<le> nearest q" using g by simp
  have "q \<le> of_nat M" by (simp add: q_def field_simps mult_le_cancel_left1)
  also have "(of_nat M :: rat) < 2 ^ 53" using \<open>(of_nat M :: rat) < of_nat (2 ^ 53)\<close> by simp
  also have "(2::rat) ^ 53 < 2 ^ 1024" by simp
  finally have "q < 2 ^ 1024" .
  with le ge qpos show ?thesis unfolding q_def [symmetric] by (simp add: round_mag_def)
qed

lemma Math_floor_quotient:
  fixes x :: rat and d :: nat
  assumes x: "0 \<le> x" "x < 2 ^ 53" "round_mag x = Some x" and d: "0 < d"
  shows "Math_floor (js_divide (Finite Pos x) (Finite Pos (of_nat d)))
           = Finite Pos (of_nat (nat \<lfloor>x\<rfloor> div d))"
proof -
  obtain r where r: "round_mag (x / of_nat d) = Some r" "\<lfloor>r\<rfloor> = \<lfloor>x / of_nat d\<rfloor>"
    using floor_of_quotient [OF x d] by blast
  have f0: "0 \<le> \<lfloor>x\<rfloor>" using x(1) by simp
  have "\<lfloor>x / of_nat d\<rfloor> = \<lfloor>x\<rfloor> div int d" using d x(1) by (rule floor_divide_nat)
  also have "\<dots> = int (nat \<lfloor>x\<rfloor>) div int d" using f0 by simp
  also have "\<dots> = int (nat \<lfloor>x\<rfloor> div d)" by (simp only: zdiv_int)
  finally have fl: "\<lfloor>r\<rfloor> = int (nat \<lfloor>x\<rfloor> div d)" by (simp only: r(2))
  have "js_divide (Finite Pos x) (Finite Pos (of_nat d)) = Finite Pos r"
    using d by (simp add: sign_mult_def to_double_Some [OF r(1)])
  then show ?thesis by (simp add: fl)
qed

lemma floor_minus_nat:
  fixes x :: rat
  assumes "of_nat b \<le> x"
  shows "nat \<lfloor>x - of_nat b\<rfloor> = nat \<lfloor>x\<rfloor> - b"
proof -
  have "\<lfloor>x - of_nat b\<rfloor> = \<lfloor>x\<rfloor> - int b"
    by (metis floor_diff_of_int of_int_of_nat_eq)
  then show ?thesis by (simp add: nat_diff_distrib')
qed

text \<open>
  Claim C9. \<^verbatim>\<open>formatTime\<close> splits a non-negative number of seconds by floor division. For
  every Number \<open>x\<close> with \<open>0 \<le> x < 2 ^ 53\<close>, whole or not, with \<open>n\<close> the whole seconds
  \<open>\<lfloor>x\<rfloor>\<close>: the hours are \<open>n div 3600\<close>, the minutes \<open>n mod 3600 div 60\<close>, and the seconds are
  the remainder \<open>n mod 60\<close> cut off, not rounded; each is printed as a decimal numeral. So
  3661 seconds give \<^verbatim>\<open>1h 1m 1s\<close>, 0 seconds give \<^verbatim>\<open>0h 0m 0s\<close>, and 59.875 seconds give
  \<^verbatim>\<open>0h 0m 59s\<close>.
\<close>

theorem formatTime_splits_seconds:
  fixes x :: rat
  assumes x: "0 \<le> x" "x < 2 ^ 53" "round_mag x = Some x"
  shows "formatTime e (Finite Pos x)
           = decimal (nat \<lfloor>x\<rfloor> div 3600) @ ''h '' @ decimal (nat \<lfloor>x\<rfloor> mod 3600 div 60) @ ''m ''
             @ decimal (nat \<lfloor>x\<rfloor> mod 60) @ ''s''"
proof -
  define N where "N = nat \<lfloor>x\<rfloor>"
  define h where "h = N div 3600"
  define R where "R = N mod 3600"
  define b where "b = R div 60 * 60"
  have Nx: "(of_nat N :: rat) \<le> x"
  proof -
    have "(of_nat N :: rat) = of_int \<lfloor>x\<rfloor>" using x(1) by (simp add: N_def)
    then show ?thesis by simp
  qed
  have "(of_nat N :: rat) < 2 ^ 53" using Nx x(2) by simp
  then have "(of_nat N :: rat) < of_nat (2 ^ 53)" by simp
  then have N53: "N < 2 ^ 53" by (simp only: of_nat_less_iff)
  have hN: "h * 3600 \<le> N" by (simp add: h_def)
  have s1: "Math_floor (js_divide (Finite Pos x) (Finite Pos 3600)) = Finite Pos (of_nat h)"
    using Math_floor_quotient [OF x, of 3600] by (simp add: h_def N_def)
  have "h * 3600 < 2 ^ 53" using hN N53 by simp
  from js_times_nat [of h 3600 Pos, OF this]
  have s2: "js_times (Finite Pos (of_nat h)) (Finite Pos 3600) = Finite Pos (of_nat (h * 3600))"
    by simp
  have le1: "(of_nat (h * 3600) :: rat) \<le> x"
  proof -
    have "(of_nat (h * 3600) :: rat) \<le> of_nat N" using hN by (simp only: of_nat_le_iff)
    with Nx show ?thesis by simp
  qed
  define r1 where "r1 = x - of_nat (h * 3600)"
  have s3: "js_minus (Finite Pos x) (Finite Pos (of_nat (h * 3600))) = Finite Pos r1"
    and rep: "round_mag r1 = Some r1"
    unfolding r1_def using js_minus_exact [OF x le1] by simp_all
  have r1pos: "0 \<le> r1" using le1 by (simp add: r1_def)
  have r153: "r1 < 2 ^ 53" using x(2) by (simp add: r1_def)
  have "nat \<lfloor>r1\<rfloor> = N - h * 3600" unfolding r1_def N_def by (rule floor_minus_nat [OF le1])
  also have "\<dots> = R" by (simp add: h_def R_def minus_div_mult_eq_mod)
  finally have fr1: "nat \<lfloor>r1\<rfloor> = R" .
  have s4: "Math_floor (js_divide (Finite Pos r1) (Finite Pos 60)) = Finite Pos (of_nat (R div 60))"
    using Math_floor_quotient [OF r1pos r153 rep, of 60] by (simp add: fr1)
  have "R < 3600" by (simp add: R_def)
  then have "R div 60 * 60 < 2 ^ 53" by simp
  from js_times_nat [of "R div 60" 60 Pos, OF this]
  have s5: "js_times (Finite Pos (of_nat (R div 60))) (Finite Pos 60) = Finite Pos (of_nat b)"
    by (simp add: b_def)
  have R1: "(of_nat R :: rat) \<le> r1"
  proof -
    have "(of_nat R :: rat) = of_int \<lfloor>r1\<rfloor>" using r1pos fr1 [symmetric] by simp
    then show ?thesis by simp
  qed
  have le2: "(of_nat b :: rat) \<le> r1"
  proof -
    have "b \<le> R" by (simp add: b_def)
    then have "(of_nat b :: rat) \<le> of_nat R" by (simp only: of_nat_le_iff)
    with R1 show ?thesis by simp
  qed
  have s6: "js_minus (Finite Pos r1) (Finite Pos (of_nat b)) = Finite Pos (r1 - of_nat b)"
    using js_minus_exact(1) [OF r1pos r153 rep le2] .
  have "nat \<lfloor>r1 - of_nat b\<rfloor> = R - b" using floor_minus_nat [OF le2] by (simp add: fr1)
  also have "\<dots> = R mod 60" by (simp add: b_def minus_div_mult_eq_mod)
  finally have fs: "nat \<lfloor>r1 - of_nat b\<rfloor> = R mod 60" .
  have "0 \<le> r1 - of_nat b" using le2 by simp
  then have "(of_int \<lfloor>r1 - of_nat b\<rfloor> :: rat) = of_nat (nat \<lfloor>r1 - of_nat b\<rfloor>)" by simp
  then have s7: "Math_floor (Finite Pos (r1 - of_nat b)) = Finite Pos (of_nat (R mod 60))"
    by (simp add: fs)
  have k: "h < 2 ^ 53" "R div 60 < 2 ^ 53" "R mod 60 < 2 ^ 53"
    using hN N53 \<open>R < 3600\<close> by simp_all
  have "R mod 60 = N mod 60" by (simp add: R_def mod_mod_cancel)
  then have "formatTime e (Finite Pos x)
      = decimal h @ ''h '' @ decimal (R div 60) @ ''m '' @ decimal (N mod 60) @ ''s''"
    unfolding formatTime_def Let_def s1 s2 s3 s4 s5 s6 s7
      number_to_string_nat [OF k(1)] number_to_string_nat [OF k(2)] number_to_string_nat [OF k(3)]
    by simp
  then show ?thesis unfolding h_def R_def N_def .
qed

theorem formatTime_splits_seconds_witness:
  "(0::rat) \<le> 3661 \<and> (3661::rat) < 2 ^ 53 \<and> round_mag 3661 = Some 3661
   \<and> round_mag 0 = Some 0 \<and> round_mag (479 / 8) = Some (479 / 8)
   \<and> formatTime sample_env (Finite Pos 3661) = ''1h 1m 1s''
   \<and> formatTime sample_env (Finite Pos 0) = ''0h 0m 0s''
   \<and> formatTime sample_env (Finite Pos (479 / 8)) = ''0h 0m 59s''"
proof -
  have a: "round_mag 3661 = Some 3661" using round_mag_of_nat [of 3661] by simp
  have b: "round_mag 0 = Some 0" by (rule round_mag_zero)
  have c: "round_mag (479 / 8) = Some (479 / 8)" using round_mag_dyadic [of 479 3] by simp
  have f: "\<lfloor>479 / 8 :: rat\<rfloor> = 59" by (simp add: floor_rat_numeral)
  show ?thesis
    using formatTime_splits_seconds [OF _ _ a, of sample_env]
      formatTime_splits_seconds [OF _ _ b, of sample_env]
      formatTime_splits_seconds [OF _ _ c, of sample_env] a b c
    by (simp add: decimal.simps f)
qed

text \<open>
  Claim C8, as amended. \<^verbatim>\<open>formatTime\<close> does not check its input and raises nothing.
  For a negative whole number of seconds \<open>n\<close> (above \<open>- 2 ^ 51\<close>) it returns the text
  of the same floor division: the hours \<open>n div 3600\<close> are negative and printed with a
  minus sign, the minutes \<open>n mod 3600 div 60\<close> and the seconds \<open>n mod 60\<close> are not.
\<close>

theorem formatTime_negative_seconds:
  fixes n :: int
  assumes "n < 0" "- (2 ^ 51) < n"
  shows "formatTime e (Finite Neg (of_int (- n)))
           = ''-'' @ decimal (nat (- (n div 3600))) @ ''h ''
             @ decimal (nat (n mod 3600 div 60)) @ ''m ''
             @ decimal (nat (n mod 60)) @ ''s''"
proof -
  define m where "m = nat (- n)"
  have mpos: "0 < m" using assms(1) by (simp add: m_def)
  have "int m < 2 ^ 51" using assms by (simp add: m_def)
  then have mb: "m < 2 ^ 51" by (metis of_nat_less_iff of_nat_numeral of_nat_power)
  have v: "(of_int (- n) :: rat) = of_nat m" using assms(1) by (simp add: m_def)
  have R: "0 \<le> n mod 3600" by simp
  have d: "nat (n mod 3600) div 60 = nat (n mod 3600 div 60)"
    using R by (simp add: nat_div_distrib)
  have "nat (n mod 3600) mod 60 = nat (n mod 3600 mod 60)"
    using R by (simp add: nat_mod_distrib)
  also have "n mod 3600 mod 60 = n mod 60" by (simp add: mod_mod_cancel)
  finally have s: "nat (n mod 3600) mod 60 = nat (n mod 60)" .
  show ?thesis
    unfolding v using formatTime_neg_nat [OF mpos mb, of e]
    unfolding m_def negative_parts [OF assms(1)] d s .
qed

theorem formatTime_negative_seconds_witness:
  "(- 1 :: int) < 0 \<and> - (2 ^ 51) < (- 1 :: int)
   \<and> formatTime sample_env (Finite Neg 1) = ''-1h 59m 59s''"
  using formatTime_negative_seconds [of "- 1" sample_env]
  by (simp add: decimal.simps)

text \<open>
  Claim C8 as stated fails: for -90 seconds \<^verbatim>\<open>formatTime\<close> returns a formatted text.
\<close>

theorem formatTime_accepts_negative:
  "formatTime sample_env (Finite Neg 90) = ''-1h 58m 30s''"
  using formatTime_neg_nat [of 90 sample_env]
  by (simp add: decimal.simps)

end
